theory Spec2Isabelle
  imports Complex_Main "HOL-Library.Multiset" "HOL-Library.List_Lexorder"
    "HOL-Library.Char_ord"
begin

section \<open>The orchestrator of the embedding pipeline\<close>

text \<open>
  A shallow embedding of \<^verbatim>\<open>src/pipeline.py\<close>: the class \<^verbatim>\<open>Pipeline\<close> with its
  methods \<^verbatim>\<open>generate_data\<close> and \<^verbatim>\<open>run_cross_validation\<close>, together with the
  library routines they call to split the population (\<^verbatim>\<open>train_test_split\<close> and
  \<^verbatim>\<open>KFold\<close> of scikit-learn, the legacy \<^verbatim>\<open>RandomState\<close> of NumPy).

  Arrays, tensors, series and Python lists are HOL lists. Exceptions are values: a
  function that can raise returns \<open>py_error + 'a\<close>, with \<open>Inl\<close> for the exception.
  Patient ids are strings, labels are integers, a feature row is a value of a type
  variable \<open>'x\<close>.
\<close>

subsection \<open>Exceptions\<close>

datatype py_error = ValueError | IndexError | KeyError | ZeroDivisionError

subsection \<open>The image modality: ids of the PNG dataset\<close>

text \<open>
  \<^verbatim>\<open>png_dataset.data\<close> is a dictionary keyed by patient id; it is modelled as the list
  of its items in insertion order. Lines 63 to 66 of the source:
  \<^verbatim>\<open>
  all_patient_ids = sorted(list(png_dataset.data.keys()))
  train_image_ids = all_patient_ids[:len(all_patient_ids)//2]
  test_image_ids = all_patient_ids[len(all_patient_ids)//2:]
  \<close>
  Python compares strings by code point, position by position, which is the
  lexicographic order on \<open>char list\<close>.
\<close>

definition dict_keys :: "('k \<times> 'v) list \<Rightarrow> 'k list" where
  "dict_keys d = map fst d"

definition all_patient_ids :: "(string \<times> 'g) list \<Rightarrow> string list" where
  "all_patient_ids png_data = sort (dict_keys png_data)"

definition train_image_ids :: "(string \<times> 'g) list \<Rightarrow> string list" where
  "train_image_ids png_data =
     take (length (all_patient_ids png_data) div 2) (all_patient_ids png_data)"

definition test_image_ids :: "(string \<times> 'g) list \<Rightarrow> string list" where
  "test_image_ids png_data =
     drop (length (all_patient_ids png_data) div 2) (all_patient_ids png_data)"

subsection \<open>The random generator\<close>

text \<open>
  Every random choice of the split comes from one NumPy \<^verbatim>\<open>RandomState\<close>. The bit
  generator itself (MT19937) is a parameter of the model: \<open>seed_state s\<close> is the
  state of \<^verbatim>\<open>RandomState(s)\<close>, and \<open>random_interval m r\<close> is the draw of
  \<^verbatim>\<open>random_interval(&state, m)\<close>, a number between \<open>0\<close> and \<open>m\<close> inclusive, with the
  state after the draw. \<open>interval_ok\<close> is that range contract.
\<close>

record 'r bitgen =
  seed_state :: "int \<Rightarrow> 'r"
  random_interval :: "nat \<Rightarrow> 'r \<Rightarrow> nat \<times> 'r"

definition interval_ok :: "'r bitgen \<Rightarrow> bool" where
  "interval_ok bg = (\<forall>m r. fst (random_interval bg m r) \<le> m)"

text \<open>
  \<^verbatim>\<open>check_random_state(seed)\<close>: \<^verbatim>\<open>None\<close> is the process-wide generator
  \<^verbatim>\<open>np.random.mtrand._rand\<close> (here \<open>global_rand\<close>, whatever state earlier code left it
  in), an integer is a fresh \<^verbatim>\<open>RandomState(seed)\<close>.
\<close>

definition check_random_state :: "'r bitgen \<Rightarrow> 'r \<Rightarrow> int option \<Rightarrow> 'r" where
  "check_random_state bg global_rand seed =
     (case seed of None \<Rightarrow> global_rand | Some s \<Rightarrow> seed_state bg s)"

text \<open>
  \<^verbatim>\<open>_shuffle_raw\<close>, the loop of \<^verbatim>\<open>RandomState.shuffle\<close> on a one-dimensional array:
  \<^verbatim>\<open>
  for i in reversed(range(1, n)):
      j = random_interval(&self._bitgen, i)
      buf = data[j]; data[j] = data[i]; data[i] = buf
  \<close>
  \<open>shuffle_raw bg i xs r\<close> runs the iterations \<open>i, i - 1, \<dots>, 1\<close>.
\<close>

fun shuffle_raw :: "'r bitgen \<Rightarrow> nat \<Rightarrow> 'a list \<Rightarrow> 'r \<Rightarrow> 'a list \<times> 'r" where
  "shuffle_raw bg 0 xs r = (xs, r)"
| "shuffle_raw bg (Suc i) xs r =
     (case random_interval bg (Suc i) r of
        (j, r') \<Rightarrow> shuffle_raw bg i (xs[j := xs ! Suc i, Suc i := xs ! j]) r')"

definition shuffle :: "'r bitgen \<Rightarrow> 'a list \<Rightarrow> 'r \<Rightarrow> 'a list \<times> 'r" where
  "shuffle bg xs r = shuffle_raw bg (length xs - 1) xs r"

text \<open>
  \<^verbatim>\<open>RandomState.permutation(x)\<close>: for an integer, \<^verbatim>\<open>arange(x)\<close> shuffled; for a
  one-dimensional array, a shuffled copy.
\<close>

definition permutation_int :: "'r bitgen \<Rightarrow> nat \<Rightarrow> 'r \<Rightarrow> nat list \<times> 'r" where
  "permutation_int bg n r = shuffle bg [0..<n] r"

definition permutation :: "'r bitgen \<Rightarrow> 'a list \<Rightarrow> 'r \<Rightarrow> 'a list \<times> 'r" where
  "permutation bg xs r = shuffle bg xs r"

text \<open>
  \<^verbatim>\<open>RandomState.choice(a, size=k, replace=False)\<close> without probabilities:
  \<^verbatim>\<open>idx = self.permutation(pop_size)[:size]; return a[idx]\<close>. Its two
  \<^verbatim>\<open>ValueError\<close> branches need \<open>size > len(a)\<close>; the one caller below passes
  \<open>min(len(a), \<dots>)\<close>, so they are not modelled.
\<close>

definition choice :: "'r bitgen \<Rightarrow> 'a list \<Rightarrow> nat \<Rightarrow> 'r \<Rightarrow> 'a list \<times> 'r" where
  "choice bg a k r =
     (case permutation_int bg (length a) r of
        (idx, r') \<Rightarrow> (map (\<lambda>i. a ! i) (take k idx), r'))"

subsection \<open>Sizes of the two subsets\<close>

text \<open>
  \<^verbatim>\<open>_validate_shuffle_split(n_samples, test_size, train_size, default_test_size)\<close>.
  A size is \<^verbatim>\<open>None\<close>, an integer (a number of samples) or a float (a fraction).
  Floats are modelled by exact rationals: \<open>0.2\<close> is \<open>1/5\<close>.
\<close>

datatype size_arg = SizeNone | SizeInt int | SizeFloat rat

definition size_out_of_range :: "int \<Rightarrow> size_arg \<Rightarrow> bool" where
  "size_out_of_range n_samples sz =
     (case sz of
        SizeNone \<Rightarrow> False
      | SizeInt k \<Rightarrow> k \<ge> n_samples \<or> k \<le> 0
      | SizeFloat f \<Rightarrow> f \<le> 0 \<or> f \<ge> 1)"

definition validate_shuffle_split ::
  "nat \<Rightarrow> size_arg \<Rightarrow> size_arg \<Rightarrow> rat \<Rightarrow> py_error + (nat \<times> nat)" where
  "validate_shuffle_split n_samples test_size0 train_size default_test_size =
     (let n = int n_samples;
          test_size = (if test_size0 = SizeNone \<and> train_size = SizeNone
                       then SizeFloat default_test_size else test_size0)
      in if size_out_of_range n test_size then Inl ValueError
         else if size_out_of_range n train_size then Inl ValueError
         else if (case (train_size, test_size) of
                    (SizeFloat a, SizeFloat b) \<Rightarrow> a + b > 1 | _ \<Rightarrow> False)
         then Inl ValueError
         else
           let n_test0 = (case test_size of
                            SizeFloat f \<Rightarrow> \<lceil>f * of_int n\<rceil> | SizeInt k \<Rightarrow> k | SizeNone \<Rightarrow> 0);
               n_train0 = (case train_size of
                            SizeFloat f \<Rightarrow> \<lfloor>f * of_int n\<rfloor> | SizeInt k \<Rightarrow> k | SizeNone \<Rightarrow> 0);
               n_train = (if train_size = SizeNone then n - n_test0 else n_train0);
               n_test = (if train_size \<noteq> SizeNone \<and> test_size = SizeNone
                         then n - n_train0 else n_test0)
           in if n_train + n_test > n then Inl ValueError
              else if n_train = 0 then Inl ValueError
              else Inr (nat n_train, nat n_test))"

subsection \<open>How many samples of each class\<close>

text \<open>
  \<^verbatim>\<open>_approximate_mode(class_counts, n_draws, rng)\<close>:
  \<^verbatim>\<open>
  continuous = class_counts / class_counts.sum() * n_draws
  floored = np.floor(continuous)
  need_to_add = int(n_draws - floored.sum())
  if need_to_add > 0:
      remainder = continuous - floored
      values = np.sort(np.unique(remainder))[::-1]
      for value in values:
          (inds,) = np.where(remainder == value)
          add_now = min(len(inds), need_to_add)
          inds = rng.choice(inds, size=add_now, replace=False)
          floored[inds] += 1
          need_to_add -= add_now
          if need_to_add == 0:
              break
  return floored.astype(int)
  \<close>
  The float arithmetic is modelled by exact rational arithmetic. \<open>add_by_remainder\<close>
  is the \<^verbatim>\<open>for\<close> loop. In float64 a product can differ from the exact one in its
  last bit, so two remainders that are equal here can differ there (with three
  classes or more): the library then adds to the larger one without a draw where
  this model draws among the tied classes, so which of them gets the extra sample
  can differ.
\<close>

fun add_by_remainder ::
  "'r bitgen \<Rightarrow> rat list \<Rightarrow> rat list \<Rightarrow> int list \<Rightarrow> int \<Rightarrow> 'r \<Rightarrow> int list \<times> 'r" where
  "add_by_remainder bg remainder [] floored need_to_add r = (floored, r)"
| "add_by_remainder bg remainder (v # values) floored need_to_add r =
     (let inds = filter (\<lambda>i. remainder ! i = v) [0..<length remainder];
          add_now = min (int (length inds)) need_to_add
      in case choice bg inds (nat add_now) r of
           (chosen, r') \<Rightarrow>
             let floored' = fold (\<lambda>i fl. fl[i := floored ! i + 1]) chosen floored;
                 need' = need_to_add - add_now
             in if need' = 0 then (floored', r')
                else add_by_remainder bg remainder values floored' need' r')"

definition approximate_mode ::
  "'r bitgen \<Rightarrow> int list \<Rightarrow> int \<Rightarrow> 'r \<Rightarrow> int list \<times> 'r" where
  "approximate_mode bg class_counts n_draws r =
     (let continuous =
            map (\<lambda>c. of_int c / of_int (sum_list class_counts) * of_int n_draws) class_counts;
          floored = map floor continuous;
          need_to_add = n_draws - sum_list floored
      in if need_to_add > 0
         then let remainder = map (\<lambda>c. c - of_int \<lfloor>c\<rfloor>) continuous;
                  values = rev (sort (remdups remainder))
              in add_by_remainder bg remainder values floored need_to_add r
         else (floored, r))"

subsection \<open>The stratified shuffle split\<close>

text \<open>
  Python's slice \<^verbatim>\<open>xs[a:b]\<close> for integer bounds: a negative bound counts from the
  end, and bounds are clamped to the list.
\<close>

definition slice_bound :: "nat \<Rightarrow> int \<Rightarrow> nat" where
  "slice_bound len b = (if b < 0 then nat (max (b + int len) 0) else min (nat b) len)"

definition py_slice :: "int \<Rightarrow> int \<Rightarrow> 'a list \<Rightarrow> 'a list" where
  "py_slice a b xs = drop (slice_bound (length xs) a) (take (slice_bound (length xs) b) xs)"

text \<open>\<^verbatim>\<open>a.take(indices, mode="clip")\<close> for non-negative indices.\<close>

definition take_clip :: "'a list \<Rightarrow> nat list \<Rightarrow> 'a list" where
  "take_clip a indices = map (\<lambda>j. a ! min j (length a - 1)) indices"

text \<open>
  The loop over the classes in \<^verbatim>\<open>StratifiedShuffleSplit._iter_indices\<close>; an element
  of the list is \<open>(class_indices[i], n_i[i], t_i[i])\<close>:
  \<^verbatim>\<open>
  for i in range(n_classes):
      permutation = rng.permutation(class_counts[i])
      perm_indices_class_i = class_indices[i].take(permutation, mode="clip")
      train.extend(perm_indices_class_i[: n_i[i]])
      test.extend(perm_indices_class_i[n_i[i] : n_i[i] + t_i[i]])
  \<close>
\<close>

fun draw_classes ::
  "'r bitgen \<Rightarrow> (nat list \<times> int \<times> int) list \<Rightarrow> nat list \<Rightarrow> nat list \<Rightarrow> 'r
     \<Rightarrow> (nat list \<times> nat list) \<times> 'r" where
  "draw_classes bg [] train test r = ((train, test), r)"
| "draw_classes bg ((class_indices_i, n, t) # rest) train test r =
     (case permutation_int bg (length class_indices_i) r of
        (perm, r') \<Rightarrow>
          let perm_indices_class_i = take_clip class_indices_i perm
          in draw_classes bg rest
               (train @ py_slice 0 n perm_indices_class_i)
               (test @ py_slice n (n + t) perm_indices_class_i) r')"

text \<open>
  \<^verbatim>\<open>np.unique(y, return_inverse=True)\<close> gives the sorted distinct labels; the
  stable \<^verbatim>\<open>argsort\<close> of the inverse, cut at the cumulative class counts, gives for
  each class the positions of its members in ascending order.
\<close>

definition unique_classes :: "int list \<Rightarrow> int list" where
  "unique_classes y = sort (remdups y)"

definition class_indices :: "int list \<Rightarrow> nat list list" where
  "class_indices y = map (\<lambda>c. filter (\<lambda>i. y ! i = c) [0..<length y]) (unique_classes y)"

text \<open>
  The first split that \<^verbatim>\<open>StratifiedShuffleSplit(test_size, train_size,
  random_state).split(X, y)\<close> yields, for \<open>n_samples = len(X)\<close>.
\<close>

definition stratified_shuffle_split ::
  "'r bitgen \<Rightarrow> 'r \<Rightarrow> int option \<Rightarrow> size_arg \<Rightarrow> size_arg \<Rightarrow> nat \<Rightarrow> int list
     \<Rightarrow> py_error + (nat list \<times> nat list)" where
  "stratified_shuffle_split bg global_rand random_state test_size train_size n_samples y =
     (if length y \<noteq> n_samples then Inl ValueError
      else case validate_shuffle_split n_samples test_size train_size (1 / 10) of
        Inl e \<Rightarrow> Inl e
      | Inr (n_train, n_test) \<Rightarrow>
          let n_classes = length (unique_classes y);
              class_counts = map (\<lambda>ix. int (length ix)) (class_indices y)
          in if list_ex (\<lambda>c. c < 2) class_counts then Inl ValueError
             else if n_train < n_classes then Inl ValueError
             else if n_test < n_classes then Inl ValueError
             else
               let rng = check_random_state bg global_rand random_state
               in case approximate_mode bg class_counts (int n_train) rng of
                 (n_i, rng1) \<Rightarrow>
                   let class_counts_remaining = map2 (\<lambda>c k. c - k) class_counts n_i
                   in case approximate_mode bg class_counts_remaining (int n_test) rng1 of
                     (t_i, rng2) \<Rightarrow>
                       (case draw_classes bg (zip (class_indices y) (zip n_i t_i)) [] [] rng2 of
                          ((train, test), rng3) \<Rightarrow>
                            (case permutation bg train rng3 of
                               (train', rng4) \<Rightarrow>
                                 (case permutation bg test rng4 of
                                    (test', rng5) \<Rightarrow> Inr (train', test')))))"

subsection \<open>\<^verbatim>\<open>train_test_split\<close> on three arrays\<close>

text \<open>
  \<^verbatim>\<open>_safe_indexing(a, indices)\<close>: the rows of \<open>a\<close> at the given positions, in the
  order of the positions; a position past the end raises.
\<close>

definition safe_indexing :: "'a list \<Rightarrow> nat list \<Rightarrow> py_error + 'a list" where
  "safe_indexing a indices =
     (if list_all (\<lambda>i. i < length a) indices then Inr (map (\<lambda>i. a ! i) indices)
      else Inl IndexError)"

definition index_both :: "'a list \<Rightarrow> nat list \<Rightarrow> nat list \<Rightarrow> py_error + ('a list \<times> 'a list)" where
  "index_both a train test =
     (case safe_indexing a train of
        Inl e \<Rightarrow> Inl e
      | Inr a_train \<Rightarrow>
          (case safe_indexing a test of Inl e \<Rightarrow> Inl e | Inr a_test \<Rightarrow> Inr (a_train, a_test)))"

text \<open>
  \<^verbatim>\<open>train_test_split(a1, a2, a3, test_size=\<dots>, random_state=\<dots>, stratify=y)\<close>, with
  \<^verbatim>\<open>train_size=None\<close> and \<^verbatim>\<open>shuffle=True\<close> as the pipeline leaves them: the arrays
  must have one length; the sizes are fixed with the default test size \<open>0.25\<close>; the
  stratified splitter, given these sizes as integers, yields the two index arrays; and
  every array is indexed by the same two index arrays. The result is the Python
  list \<open>[a1_train, a1_test, a2_train, a2_test, a3_train, a3_test]\<close> as a tuple.
\<close>

definition train_test_split ::
  "'r bitgen \<Rightarrow> 'r \<Rightarrow> 'a list \<Rightarrow> 'b list \<Rightarrow> 'c list \<Rightarrow> size_arg \<Rightarrow> int option \<Rightarrow> int list
     \<Rightarrow> py_error + ('a list \<times> 'a list \<times> 'b list \<times> 'b list \<times> 'c list \<times> 'c list)" where
  "train_test_split bg global_rand a1 a2 a3 test_size random_state stratify =
     (if length a2 \<noteq> length a1 \<or> length a3 \<noteq> length a1 then Inl ValueError
      else case validate_shuffle_split (length a1) test_size SizeNone (1 / 4) of
        Inl e \<Rightarrow> Inl e
      | Inr (n_train, n_test) \<Rightarrow>
          (case stratified_shuffle_split bg global_rand random_state
                  (SizeInt (int n_test)) (SizeInt (int n_train)) (length a1) stratify of
             Inl e \<Rightarrow> Inl e
           | Inr (train, test) \<Rightarrow>
               (case index_both a1 train test of
                  Inl e \<Rightarrow> Inl e
                | Inr (a1_train, a1_test) \<Rightarrow>
                    (case index_both a2 train test of
                       Inl e \<Rightarrow> Inl e
                     | Inr (a2_train, a2_test) \<Rightarrow>
                         (case index_both a3 train test of
                            Inl e \<Rightarrow> Inl e
                          | Inr (a3_train, a3_test) \<Rightarrow>
                              Inr (a1_train, a1_test, a2_train, a2_test, a3_train, a3_test))))))"

subsection \<open>\<^verbatim>\<open>KFold\<close>\<close>

text \<open>
  \<^verbatim>\<open>KFold(n_splits=k, shuffle=True, random_state=seed)\<close> refuses \<open>k \<le> 1\<close> when it is
  constructed. \<^verbatim>\<open>split(X)\<close> refuses more splits than samples, shuffles
  \<^verbatim>\<open>arange(n_samples)\<close> once, and cuts it into \<open>k\<close> consecutive folds, the first
  \<open>n_samples % k\<close> of them one longer:
  \<^verbatim>\<open>
  fold_sizes = np.full(n_splits, n_samples // n_splits, dtype=int)
  fold_sizes[: n_samples % n_splits] += 1
  current = 0
  for fold_size in fold_sizes:
      start, stop = current, current + fold_size
      yield indices[start:stop]
      current = stop
  \<close>
  Each fold is turned into a boolean mask over \<^verbatim>\<open>arange(n_samples)\<close>; the pair
  yielded is \<open>(indices[~mask], indices[mask])\<close>, both in ascending order.
\<close>

definition fold_sizes :: "nat \<Rightarrow> nat \<Rightarrow> nat list" where
  "fold_sizes n_splits n_samples =
     map (\<lambda>i. n_samples div n_splits + (if i < n_samples mod n_splits then 1 else 0))
       [0..<n_splits]"

fun iter_test_indices :: "nat list \<Rightarrow> nat \<Rightarrow> nat list \<Rightarrow> nat list list" where
  "iter_test_indices indices current [] = []"
| "iter_test_indices indices current (fold_size # rest) =
     drop current (take (current + fold_size) indices)
       # iter_test_indices indices (current + fold_size) rest"

definition mask_split :: "nat \<Rightarrow> nat list \<Rightarrow> nat list \<times> nat list" where
  "mask_split n_samples test_index =
     (filter (\<lambda>i. i \<notin> set test_index) [0..<n_samples],
      filter (\<lambda>i. i \<in> set test_index) [0..<n_samples])"

definition kfold_split ::
  "'r bitgen \<Rightarrow> 'r \<Rightarrow> int \<Rightarrow> int option \<Rightarrow> nat \<Rightarrow> py_error + (nat list \<times> nat list) list" where
  "kfold_split bg global_rand n_splits random_state n_samples =
     (if n_splits \<le> 1 then Inl ValueError
      else if n_splits > int n_samples then Inl ValueError
      else case shuffle bg [0..<n_samples] (check_random_state bg global_rand random_state) of
        (indices, rng') \<Rightarrow>
          Inr (map (mask_split n_samples)
                 (iter_test_indices indices 0 (fold_sizes (nat n_splits) n_samples))))"

subsection \<open>The collaborators of the pipeline\<close>

text \<open>
  Modelled from the spec: the classes \<^verbatim>\<open>DataPreprocessing\<close>,
  \<^verbatim>\<open>ClinicalDataEmbeddings\<close>, \<^verbatim>\<open>PNGDataset\<close> and \<^verbatim>\<open>QCNN\<close> are imported by
  \<^verbatim>\<open>pipeline.py\<close> from modules of the repository that are not among its source
  files. The spec (sections 1, 2, 4.2 and 9) treats them as opaque services:
  \<^item> \<open>preprocesses_data path\<close>: \<^verbatim>\<open>DataPreprocessing(path).preprocesses_data()\<close>, the
    feature rows, labels and ids of the clinical table;
  \<^item> \<open>train_model dim target rows labels\<close>: the state of a
    \<^verbatim>\<open>ClinicalDataEmbeddings(dim, target)\<close> after \<^verbatim>\<open>train_model(rows, labels)\<close>, a
    function of what it is given;
  \<^item> \<open>model_apply m\<close>: the fitted model, which "maps raw feature rows to fixed-shape
    embedding tensors", one row to one embedding;
  \<^item> \<open>png_data path\<close>: the dictionary \<^verbatim>\<open>PNGDataset(path).data\<close>.
  The generator of the random numbers and the state of NumPy's global generator when
  the method is called complete the environment.
\<close>

record ('r, 'x, 'm, 'e, 'g) world =
  rng :: "'r bitgen"
  global_rand :: "'r"
  preprocesses_data :: "string \<Rightarrow> 'x list \<times> int list \<times> string list"
  train_model :: "nat \<Rightarrow> string option \<Rightarrow> 'x list \<Rightarrow> int list \<Rightarrow> 'm"
  model_apply :: "'m \<Rightarrow> 'x \<Rightarrow> 'e"
  png_data :: "string \<Rightarrow> (string \<times> 'g) list"

text \<open>
  What a run leaves behind, in the order of the calls:
  \<^item> \<open>DataCsv path rows\<close>: \<^verbatim>\<open>pd.DataFrame(rows.numpy()).to_csv(path, index=False)\<close>;
  \<^item> \<open>LabelsCsv path (c1, c2) rows\<close>: the frame
    \<^verbatim>\<open>pd.DataFrame({c1: ids, c2: labels.numpy()})\<close> written to \<open>path\<close>;
  \<^item> \<open>ClinicalEmbeddings isTrain embs\<close>: the embeddings saved by
    \<^verbatim>\<open>generate_and_save_embeddings(rows, isTrain=\<dots>)\<close>;
  \<^item> \<open>ImageEmbeddings filename ids patch_size\<close>: the call
    \<^verbatim>\<open>process_and_save_embeddings(png_dataset, circuit, ids, patch_size, filename)\<close>;
  \<^item> \<open>NpSave path embs\<close>: \<^verbatim>\<open>np.save(path, embs)\<close>.
  Log lines are not modelled.
\<close>

datatype ('x, 'e) effect =
    DataCsv string "'x list"
  | LabelsCsv string "string \<times> string" "(string \<times> int) list"
  | ClinicalEmbeddings bool "'e list"
  | ImageEmbeddings string "string list" nat
  | NpSave string "'e list"

text \<open>
  A two-column frame from a dictionary of two columns: pandas raises
  \<^verbatim>\<open>ValueError\<close> when the columns differ in length.
\<close>

definition labels_frame :: "string list \<Rightarrow> int list \<Rightarrow> py_error + (string \<times> int) list" where
  "labels_frame ids labels =
     (if length ids \<noteq> length labels then Inl ValueError else Inr (zip ids labels))"

subsection \<open>\<^verbatim>\<open>Pipeline.generate_data\<close>\<close>

record args =
  use_pregen :: bool
  data_type :: string

type_synonym 'x split =
  "'x list \<times> 'x list \<times> int list \<times> int list \<times> string list \<times> string list"

text \<open>Lines 37 to 48: the four CSV files.\<close>

definition save_csv :: "'x split \<Rightarrow> py_error + ('x, 'e) effect list" where
  "save_csv sp =
     (case sp of (train_data, test_data, train_labels, test_labels, train_ids, test_ids) \<Rightarrow>
        (case labels_frame train_ids train_labels of
           Inl e \<Rightarrow> Inl e
         | Inr train_labels_df \<Rightarrow>
             (case labels_frame test_ids test_labels of
                Inl e \<Rightarrow> Inl e
              | Inr test_labels_df \<Rightarrow>
                  Inr [DataCsv ''data/train_data.csv'' train_data,
                       LabelsCsv ''data/labels/train_labels.csv''
                         (''TCIA_ID'', ''Censored_0_progressed_1'') train_labels_df,
                       DataCsv ''data/test_data.csv'' test_data,
                       LabelsCsv ''data/labels/test_labels.csv''
                         (''TCIA_ID'', ''Censored_0_progressed_1'') test_labels_df])))"

text \<open>
  Lines 52 to 56: the clinical embeddings. The result is the fitted model held by
  \<^verbatim>\<open>embedding_generator\<close> (if the branch is taken) and the files written.
\<close>

definition clinical_embeddings ::
  "('r, 'x, 'm, 'e, 'g) world \<Rightarrow> args \<Rightarrow> 'x split \<Rightarrow> 'm option \<times> ('x, 'e) effect list" where
  "clinical_embeddings w a sp =
     (case sp of (train_data, test_data, train_labels, test_labels, train_ids, test_ids) \<Rightarrow>
        if data_type a = ''both'' \<or> data_type a = ''clinical''
        then let m = train_model w 128 (Some ''Censored_0_progressed_1'') train_data train_labels
             in (Some m,
                 [ClinicalEmbeddings True (map (model_apply w m) train_data),
                  ClinicalEmbeddings False (map (model_apply w m) test_data)])
        else (None, []))"

text \<open>Lines 60 to 73: the image embeddings.\<close>

definition image_embeddings ::
  "('r, 'x, 'm, 'e, 'g) world \<Rightarrow> args \<Rightarrow> ('x, 'e) effect list" where
  "image_embeddings w a =
     (if data_type a = ''both'' \<or> data_type a = ''image''
      then let png = png_data w ''data/image_data/png''
           in [ImageEmbeddings ''train_embeddings.npy'' (train_image_ids png) 6,
               ImageEmbeddings ''test_embeddings.npy'' (test_image_ids png) 6]
      else [])"

text \<open>Lines 29 to 35: the population and its split.\<close>

definition split_population :: "('r, 'x, 'm, 'e, 'g) world \<Rightarrow> py_error + 'x split" where
  "split_population w =
     (case preprocesses_data w ''data/clinical_data/clinical_Data.csv'' of
        (patient_data, patient_labels, patient_ids) \<Rightarrow>
          train_test_split (rng w) (global_rand w) patient_data patient_labels patient_ids
            (SizeFloat (1 / 5)) (Some 42) patient_labels)"

text \<open>
  The method: the effects it had, and the exception that ended it, if one did. There
  is no \<^verbatim>\<open>try\<close> in the method, so an exception of a callee ends it.
\<close>

definition generate_data ::
  "('r, 'x, 'm, 'e, 'g) world \<Rightarrow> args \<Rightarrow> ('x, 'e) effect list \<times> py_error option" where
  "generate_data w a =
     (if use_pregen a then ([], None)
      else case split_population w of
        Inl e \<Rightarrow> ([], Some e)
      | Inr sp \<Rightarrow>
          (case save_csv sp of
             Inl e \<Rightarrow> ([], Some e)
           | Inr csv \<Rightarrow> (csv @ snd (clinical_embeddings w a sp) @ image_embeddings w a, None)))"

subsection \<open>\<^verbatim>\<open>Pipeline.run_cross_validation\<close>\<close>

text \<open>
  Lines 112 to 116, the averages over the folds, for any list of per-fold metric
  dictionaries:
  \<^verbatim>\<open>
  for metric in fold_metrics[0].keys():
      avg_value = sum(fold[metric] for fold in fold_metrics) / k
  \<close>
  \<open>fold_metrics[0]\<close> of an empty list raises \<^verbatim>\<open>IndexError\<close>, a metric missing in a
  fold raises \<^verbatim>\<open>KeyError\<close>, and \<open>k = 0\<close> raises \<^verbatim>\<open>ZeroDivisionError\<close>.
\<close>

definition dict_get :: "('k \<times> 'v) list \<Rightarrow> 'k \<Rightarrow> py_error + 'v" where
  "dict_get d k = (case map_of d k of None \<Rightarrow> Inl KeyError | Some v \<Rightarrow> Inr v)"

fun sum_metric :: "string \<Rightarrow> (string \<times> rat) list list \<Rightarrow> py_error + rat" where
  "sum_metric metric [] = Inr 0"
| "sum_metric metric (fold_m # folds) =
     (case dict_get fold_m metric of
        Inl e \<Rightarrow> Inl e
      | Inr v \<Rightarrow> (case sum_metric metric folds of Inl e \<Rightarrow> Inl e | Inr s \<Rightarrow> Inr (v + s)))"

fun average_loop ::
  "string list \<Rightarrow> (string \<times> rat) list list \<Rightarrow> int \<Rightarrow> py_error + (string \<times> rat) list" where
  "average_loop [] fold_metrics k = Inr []"
| "average_loop (metric # metrics) fold_metrics k =
     (case sum_metric metric fold_metrics of
        Inl e \<Rightarrow> Inl e
      | Inr s \<Rightarrow>
          if k = 0 then Inl ZeroDivisionError
          else (case average_loop metrics fold_metrics k of
                  Inl e \<Rightarrow> Inl e
                | Inr avgs \<Rightarrow> Inr ((metric, s / of_int k) # avgs)))"

definition average_metrics ::
  "(string \<times> rat) list list \<Rightarrow> int \<Rightarrow> py_error + (string \<times> rat) list" where
  "average_metrics fold_metrics k =
     (case fold_metrics of
        [] \<Rightarrow> Inl IndexError
      | first # _ \<Rightarrow> average_loop (dict_keys first) fold_metrics k)"

text \<open>
  The body of the loop over the folds (lines 88 to 104) for fold number \<open>fold_no\<close>:
  the rows are selected by index, a new model is fit on the train rows, and two
  arrays are saved. Nothing is appended to \<^verbatim>\<open>fold_metrics\<close>: the line that would do
  it (line 110) is a comment. The constructor, \<^verbatim>\<open>train_model\<close>, the model call and
  \<^verbatim>\<open>np.save\<close> are taken to return: an exception of theirs would end the method at
  that call and is not an outcome of this model, so no property below is a statement
  that the method cannot end in another way.
\<close>

fun show_nat :: "nat \<Rightarrow> string" where
  "show_nat n = (if n < 10 then [char_of (48 + n)] else show_nat (n div 10) @ [char_of (48 + n mod 10)])"

definition fold_body ::
  "('r, 'x, 'm, 'e, 'g) world \<Rightarrow> 'x list \<Rightarrow> int list \<Rightarrow> nat \<Rightarrow> nat list \<times> nat list
     \<Rightarrow> py_error + ('x, 'e) effect list" where
  "fold_body w patient_data patient_labels fold_no ix =
     (case ix of (train_idx, val_idx) \<Rightarrow>
        (case safe_indexing patient_data train_idx of Inl e \<Rightarrow> Inl e | Inr train_data \<Rightarrow>
        (case safe_indexing patient_labels train_idx of Inl e \<Rightarrow> Inl e | Inr train_labels \<Rightarrow>
        (case safe_indexing patient_data val_idx of Inl e \<Rightarrow> Inl e | Inr val_data \<Rightarrow>
        (case safe_indexing patient_labels val_idx of Inl e \<Rightarrow> Inl e | Inr val_labels \<Rightarrow>
           let m = train_model w 128 None train_data train_labels
           in Inr [NpSave (''data/clinical_data/fold_'' @ show_nat fold_no @ ''_train_embeddings.npy'')
                     (map (model_apply w m) train_data),
                   NpSave (''data/clinical_data/fold_'' @ show_nat fold_no @ ''_val_embeddings.npy'')
                     (map (model_apply w m) val_data)])))))"

fun fold_loop ::
  "('r, 'x, 'm, 'e, 'g) world \<Rightarrow> 'x list \<Rightarrow> int list \<Rightarrow> nat \<Rightarrow> (nat list \<times> nat list) list
     \<Rightarrow> ('x, 'e) effect list \<times> py_error option" where
  "fold_loop w patient_data patient_labels fold_no [] = ([], None)"
| "fold_loop w patient_data patient_labels fold_no (ix # rest) =
     (case fold_body w patient_data patient_labels fold_no ix of
        Inl e \<Rightarrow> ([], Some e)
      | Inr effs \<Rightarrow>
          (case fold_loop w patient_data patient_labels (Suc fold_no) rest of
             (effs', err) \<Rightarrow> (effs @ effs', err)))"

definition run_cross_validation ::
  "('r, 'x, 'm, 'e, 'g) world \<Rightarrow> int \<Rightarrow> ('x, 'e) effect list \<times> py_error option" where
  "run_cross_validation w k =
     (case preprocesses_data w ''data/clinical_data/clinical_Data.csv'' of
        (patient_data, patient_labels, patient_ids) \<Rightarrow>
          (case kfold_split (rng w) (global_rand w) k (Some 42) (length patient_data) of
             Inl e \<Rightarrow> ([], Some e)
           | Inr folds \<Rightarrow>
               (case fold_loop w patient_data patient_labels 0 folds of
                  (effs, Some e) \<Rightarrow> (effs, Some e)
                | (effs, None) \<Rightarrow>
                    (case average_metrics [] k of
                       Inl e \<Rightarrow> (effs, Some e)
                     | Inr avgs \<Rightarrow> (effs, None)))))"

subsection \<open>A concrete environment for the examples\<close>

text \<open>
  A small generator that keeps the range contract (the draw is the state modulo
  \<open>m + 1\<close>), and a population of ten patients; the fields of the world that stand for
  the embedding model are simple arithmetic.
\<close>

definition demo_bitgen :: "nat bitgen" where
  "demo_bitgen = \<lparr> seed_state = (\<lambda>s. nat \<bar>s\<bar>),
     random_interval = (\<lambda>m r. (r mod (m + 1), r + 3)) \<rparr>"

definition demo_world :: "int list \<Rightarrow> (nat, nat, nat, nat, nat) world" where
  "demo_world labels = \<lparr> rng = demo_bitgen, global_rand = 7,
     preprocesses_data = (\<lambda>p. ([10, 11, 12, 13, 14, 15, 16, 17, 18, 19], labels,
        [''a'', ''b'', ''c'', ''d'', ''e'', ''f'', ''g'', ''h'', ''i'', ''j''])),
     train_model = (\<lambda>d t xs ys. sum_list xs + nat (sum_list ys)),
     model_apply = (\<lambda>m x. m + x),
     png_data = (\<lambda>p. [(''q2'', 0), (''q1'', 1), (''q3'', 5)]) \<rparr>"

section \<open>Properties\<close>

subsection \<open>The positional split of the image ids\<close>

lemma length_all_patient_ids: "length (all_patient_ids d) = length d"
  by (simp add: all_patient_ids_def dict_keys_def)

text \<open>
  Claim C6. The ids of the image dataset are sorted; the first half of the sorted
  list (\<open>n div 2\<close> ids) is the train list and the rest is the test list, so the two
  lists concatenated are the sorted ids. No label is an input of the split. With 10
  patient ids the train list is exactly the first 5 sorted ids and the test list is
  exactly the last 5.
\<close>

theorem image_ids_positional_split:
  "sorted (all_patient_ids d)
   \<and> set (all_patient_ids d) = fst ` set d
   \<and> train_image_ids d @ test_image_ids d = all_patient_ids d
   \<and> length (train_image_ids d) = length d div 2
   \<and> length (test_image_ids d) = length d - length d div 2
   \<and> (length d = 10 \<longrightarrow>
        train_image_ids d = take 5 (all_patient_ids d)
        \<and> test_image_ids d = drop 5 (all_patient_ids d)
        \<and> length (train_image_ids d) = 5 \<and> length (test_image_ids d) = 5)"
  by (auto simp: train_image_ids_def test_image_ids_def length_all_patient_ids
      all_patient_ids_def dict_keys_def)

theorem image_ids_positional_split_witness:
  "train_image_ids
     [(''p07'', 1::nat), (''p03'', 0), (''p10'', 1), (''p01'', 0), (''p05'', 0),
      (''p09'', 1), (''p02'', 1), (''p08'', 0), (''p04'', 1), (''p06'', 0)]
     = take 5 (all_patient_ids
     [(''p07'', 1::nat), (''p03'', 0), (''p10'', 1), (''p01'', 0), (''p05'', 0),
      (''p09'', 1), (''p02'', 1), (''p08'', 0), (''p04'', 1), (''p06'', 0)])
   \<and> test_image_ids
     [(''p07'', 1::nat), (''p03'', 0), (''p10'', 1), (''p01'', 0), (''p05'', 0),
      (''p09'', 1), (''p02'', 1), (''p08'', 0), (''p04'', 1), (''p06'', 0)]
     = drop 5 (all_patient_ids
     [(''p07'', 1::nat), (''p03'', 0), (''p10'', 1), (''p01'', 0), (''p05'', 0),
      (''p09'', 1), (''p02'', 1), (''p08'', 0), (''p04'', 1), (''p06'', 0)])"
  using image_ids_positional_split
    [of "[(''p07'', 1::nat), (''p03'', 0), (''p10'', 1), (''p01'', 0), (''p05'', 0),
      (''p09'', 1), (''p02'', 1), (''p08'', 0), (''p04'', 1), (''p06'', 0)]"]
  by simp

subsection \<open>Auxiliary facts\<close>

lemma demo_interval_ok: "interval_ok demo_bitgen"
  by (simp add: interval_ok_def demo_bitgen_def)

lemma demo_split_eval:
  "split_population (demo_world [0,0,0,1,0,0,0,0,1,0]) =
     Inr ([17, 19, 11, 18, 10, 15, 13, 16], [14, 12], [0, 0, 0, 1, 0, 0, 1, 0], [0, 0],
          [''h'', ''j'', ''b'', ''i'', ''a'', ''f'', ''d'', ''g''], [''e'', ''c''])"
  by code_simp

lemma safe_indexing_Inr:
  "safe_indexing a ix = Inr b \<Longrightarrow> b = map (\<lambda>i. a ! i) ix \<and> (\<forall>i\<in>set ix. i < length a)"
  by (auto simp: safe_indexing_def list_all_iff split: if_splits)

lemma safe_indexing_error: "safe_indexing a ix = Inl e \<Longrightarrow> e = IndexError"
  by (auto simp: safe_indexing_def split: if_splits)

lemma index_both_Inr:
  "index_both a train test = Inr (b, c) \<Longrightarrow>
     b = map (\<lambda>i. a ! i) train \<and> c = map (\<lambda>i. a ! i) test
     \<and> (\<forall>i\<in>set train. i < length a) \<and> (\<forall>i\<in>set test. i < length a)"
  by (auto simp: index_both_def split: sum.splits dest: safe_indexing_Inr)

lemma validate_shuffle_split_error:
  "validate_shuffle_split n ts tr d = Inl e \<Longrightarrow> e = ValueError"
  by (auto simp: validate_shuffle_split_def Let_def split: if_splits)

lemma train_test_split_Inr:
  assumes "train_test_split bg g a1 a2 a3 ts rs y = Inr (a1tr, a1te, a2tr, a2te, a3tr, a3te)"
  shows "\<exists>n_train n_test train test.
           length a2 = length a1 \<and> length a3 = length a1
           \<and> validate_shuffle_split (length a1) ts SizeNone (1 / 4) = Inr (n_train, n_test)
           \<and> stratified_shuffle_split bg g rs (SizeInt (int n_test)) (SizeInt (int n_train))
                (length a1) y = Inr (train, test)
           \<and> (\<forall>i\<in>set train. i < length a1) \<and> (\<forall>i\<in>set test. i < length a1)
           \<and> a1tr = map (\<lambda>i. a1 ! i) train \<and> a1te = map (\<lambda>i. a1 ! i) test
           \<and> a2tr = map (\<lambda>i. a2 ! i) train \<and> a2te = map (\<lambda>i. a2 ! i) test
           \<and> a3tr = map (\<lambda>i. a3 ! i) train \<and> a3te = map (\<lambda>i. a3 ! i) test"
  using assms
  apply (simp add: train_test_split_def split: if_splits sum.splits prod.splits)
  apply (auto dest!: index_both_Inr)
  done

lemma class_count: "length (filter (\<lambda>i. y ! i = c) [0..<length y]) = count_list y c"
proof -
  have "filter (\<lambda>x. x = c) y = map (\<lambda>i. y ! i) (filter (\<lambda>i. y ! i = c) [0..<length y])"
    by (subst (1) map_nth[symmetric, of y]) (simp add: filter_map comp_def del: map_nth)
  then have "length (filter (\<lambda>x. x = c) y) = length (filter (\<lambda>i. y ! i = c) [0..<length y])"
    by simp
  moreover have "filter (\<lambda>x. x = c) y = filter ((=) c) y"
    by (rule filter_cong) auto
  ultimately show ?thesis by (simp add: count_list_eq_length_filter)
qed

lemma stratified_small_class:
  assumes "c \<in> set y" "count_list y c < 2"
  shows "stratified_shuffle_split bg g rs ts tr n y = Inl ValueError"
proof -
  have "c \<in> set (unique_classes y)" using assms(1) by (simp add: unique_classes_def)
  then have "list_ex (\<lambda>k. k < 2) (map (\<lambda>ix. int (length ix)) (class_indices y))"
    using assms(2) by (auto simp: list_ex_iff class_indices_def class_count intro!: bexI[of _ c])
  then show ?thesis
    by (auto simp: stratified_shuffle_split_def Let_def split: sum.splits
        dest: validate_shuffle_split_error)
qed

lemma train_test_split_small_class:
  assumes "c \<in> set y" "count_list y c < 2"
  shows "train_test_split bg g a1 a2 a3 ts rs y = Inl ValueError"
  by (auto simp: train_test_split_def stratified_small_class[OF assms]
      split: sum.splits dest: validate_shuffle_split_error)

lemma generate_data_success:
  assumes "\<not> use_pregen a" and "split_population w = Inr (trd, ted, trl, tel, tri, tei)"
  shows "generate_data w a =
    ([DataCsv ''data/train_data.csv'' trd,
      LabelsCsv ''data/labels/train_labels.csv'' (''TCIA_ID'', ''Censored_0_progressed_1'')
        (zip tri trl),
      DataCsv ''data/test_data.csv'' ted,
      LabelsCsv ''data/labels/test_labels.csv'' (''TCIA_ID'', ''Censored_0_progressed_1'')
        (zip tei tel)]
     @ snd (clinical_embeddings w a (trd, ted, trl, tel, tri, tei)) @ image_embeddings w a, None)"
proof -
  obtain X y ids where p: "preprocesses_data w ''data/clinical_data/clinical_Data.csv'' = (X, y, ids)"
    by (cases "preprocesses_data w ''data/clinical_data/clinical_Data.csv''")
  from assms(2) p have "train_test_split (rng w) (global_rand w) X y ids (SizeFloat (1 / 5))
      (Some 42) y = Inr (trd, ted, trl, tel, tri, tei)"
    by (simp add: split_population_def)
  from train_test_split_Inr[OF this] have "length tri = length trl" "length tei = length tel"
    by auto
  then show ?thesis using assms
    by (simp add: generate_data_def save_csv_def labels_frame_def)
qed

lemma demo_world_global: "demo_world L\<lparr>global_rand := 7\<rparr> = demo_world L"
  by (simp add: demo_world_def)

lemma train_test_split_global_rand:
  "train_test_split bg ga X y ids test_size (Some seed) strat
     = train_test_split bg gb X y ids test_size (Some seed) strat"
  unfolding train_test_split_def stratified_shuffle_split_def check_random_state_def option.case
  by simp

text \<open>
  Claim C2. The split is a function of its inputs and the seed alone: called with an
  integer seed it builds a new generator from the seed, so two runs on the same
  arrays, split fraction and seed give the same six arrays, and with them the same
  train and test id lists, whatever state the process-wide generator is in at the
  two calls. The same holds for the split inside \<open>generate_data\<close>.
\<close>

theorem split_same_seed_same_partition:
  "train_test_split bg ga X y ids test_size (Some seed) strat
     = train_test_split bg gb X y ids test_size (Some seed) strat
   \<and> split_population (w\<lparr>global_rand := ga\<rparr>) = split_population (w\<lparr>global_rand := gb\<rparr>)"
proof
  show "train_test_split bg ga X y ids test_size (Some seed) strat
     = train_test_split bg gb X y ids test_size (Some seed) strat"
    by (rule train_test_split_global_rand)
next
  obtain pd pl pi where p:
    "preprocesses_data w ''data/clinical_data/clinical_Data.csv'' = (pd, pl, pi)"
    by (cases "preprocesses_data w ''data/clinical_data/clinical_Data.csv''")
  show "split_population (w\<lparr>global_rand := ga\<rparr>) = split_population (w\<lparr>global_rand := gb\<rparr>)"
    using train_test_split_global_rand[of "rng w" ga pd pl pi "SizeFloat (1 / 5)" 42 pl gb] p
    by (simp add: split_population_def)
qed

theorem split_same_seed_same_partition_witness:
  "split_population (demo_world [0,0,0,1,0,0,0,0,1,0]\<lparr>global_rand := 99\<rparr>) =
     Inr ([17, 19, 11, 18, 10, 15, 13, 16], [14, 12], [0, 0, 0, 1, 0, 0, 1, 0], [0, 0],
          [''h'', ''j'', ''b'', ''i'', ''a'', ''f'', ''d'', ''g''], [''e'', ''c''])"
  using split_same_seed_same_partition
    [where w = "demo_world [0,0,0,1,0,0,0,0,1,0]" and ga = 99 and gb = 7, THEN conjunct2]
    demo_split_eval
  by (simp add: demo_world_global)

text \<open>
  Claim C5. In the clinical embedding step the model is fit on the train rows and
  the train labels only, and the test embeddings are that model applied to the test
  rows: two runs of the step that differ only in the test labels leave the same
  fitted model and write the same embeddings.
\<close>

theorem clinical_embeddings_ignore_test_labels:
  "clinical_embeddings w a (trd, ted, trl, tel1, tri, tei)
     = clinical_embeddings w a (trd, ted, trl, tel2, tri, tei)
   \<and> (data_type a = ''both'' \<or> data_type a = ''clinical'' \<longrightarrow>
        clinical_embeddings w a (trd, ted, trl, tel1, tri, tei) =
          (Some (train_model w 128 (Some ''Censored_0_progressed_1'') trd trl),
           [ClinicalEmbeddings True
              (map (model_apply w (train_model w 128 (Some ''Censored_0_progressed_1'') trd trl)) trd),
            ClinicalEmbeddings False
              (map (model_apply w (train_model w 128 (Some ''Censored_0_progressed_1'') trd trl)) ted)]))"
  by (simp add: clinical_embeddings_def Let_def)

theorem clinical_embeddings_ignore_test_labels_witness:
  "clinical_embeddings (demo_world []) \<lparr>use_pregen = False, data_type = ''clinical''\<rparr>
      ([10, 11, 12], [13], [0, 1, 0], [1], [''a'', ''b'', ''c''], [''d''])
     = clinical_embeddings (demo_world []) \<lparr>use_pregen = False, data_type = ''clinical''\<rparr>
      ([10, 11, 12], [13], [0, 1, 0], [0], [''a'', ''b'', ''c''], [''d''])
   \<and> clinical_embeddings (demo_world []) \<lparr>use_pregen = False, data_type = ''clinical''\<rparr>
      ([10, 11, 12], [13], [0, 1, 0], [1], [''a'', ''b'', ''c''], [''d''])
     = (Some 34, [ClinicalEmbeddings True [44, 45, 46], ClinicalEmbeddings False [47]])"
proof (rule conjI)
  show "clinical_embeddings (demo_world []) \<lparr>use_pregen = False, data_type = ''clinical''\<rparr>
      ([10, 11, 12], [13], [0, 1, 0], [1], [''a'', ''b'', ''c''], [''d''])
     = clinical_embeddings (demo_world []) \<lparr>use_pregen = False, data_type = ''clinical''\<rparr>
      ([10, 11, 12], [13], [0, 1, 0], [0], [''a'', ''b'', ''c''], [''d''])"
    by (rule clinical_embeddings_ignore_test_labels[THEN conjunct1])
next
  show "clinical_embeddings (demo_world []) \<lparr>use_pregen = False, data_type = ''clinical''\<rparr>
      ([10, 11, 12], [13], [0, 1, 0], [1], [''a'', ''b'', ''c''], [''d''])
     = (Some 34, [ClinicalEmbeddings True [44, 45, 46], ClinicalEmbeddings False [47]])"
    by (simp add: clinical_embeddings_def demo_world_def)
qed

lemma kfold_split_error: "kfold_split bg g k rs n = Inl e \<Longrightarrow> e = ValueError"
  by (auto simp: kfold_split_def split: if_splits prod.splits)

lemma kfold_split_fails_iff:
  "(\<exists>e. kfold_split bg g k rs n = Inl e) \<longleftrightarrow> k \<le> 1 \<or> int n < k"
  by (auto simp: kfold_split_def split: if_splits prod.splits)

lemma fold_body_error: "fold_body w X y f ix = Inl e \<Longrightarrow> e = IndexError"
  by (auto simp: fold_body_def Let_def split: prod.splits sum.splits dest: safe_indexing_error)

lemma fold_loop_error: "fold_loop w X y f folds = (effs, Some e) \<Longrightarrow> e = IndexError"
  by (induction folds arbitrary: f effs)
     (auto split: sum.splits prod.splits dest: fold_body_error)

lemma average_metrics_empty: "average_metrics [] k = Inl IndexError"
  by (simp add: average_metrics_def)

lemma run_cross_validation_error:
  assumes "preprocesses_data w ''data/clinical_data/clinical_Data.csv'' = (X, y, ids)"
  shows "snd (run_cross_validation w k) =
           Some (if k \<le> 1 \<or> int (length X) < k then ValueError else IndexError)"
proof (cases "kfold_split (rng w) (global_rand w) k (Some 42) (length X)")
  case (Inl e)
  then have "e = ValueError" "k \<le> 1 \<or> int (length X) < k"
    using kfold_split_error[OF Inl] kfold_split_fails_iff[of "rng w" "global_rand w" k "Some 42" "length X"]
    by auto
  then show ?thesis using assms Inl by (simp add: run_cross_validation_def)
next
  case (Inr folds)
  then have ok: "\<not> (k \<le> 1 \<or> int (length X) < k)"
    using kfold_split_fails_iff[of "rng w" "global_rand w" k "Some 42" "length X"] by auto
  obtain effs err where fl: "fold_loop w X y 0 folds = (effs, err)"
    by (cases "fold_loop w X y 0 folds")
  show ?thesis
  proof (cases err)
    case None
    then show ?thesis using assms Inr fl ok
      by (simp add: run_cross_validation_def average_metrics_empty)
  next
    case (Some e)
    then have "e = IndexError" using fold_loop_error fl by blast
    then show ?thesis using assms Inr fl ok Some by (simp add: run_cross_validation_def)
  qed
qed

text \<open>
  Claim C8, as stated, fails: with no metric collected the averaging step raises the
  index fault of \<open>fold_metrics[0]\<close>; there is no \<open>AggregationError\<close> in the code. Here a
  population of ten patients and five folds.
\<close>

theorem cv_empty_metrics_counterexample:
  "average_metrics [] 5 = Inl IndexError
   \<and> snd (run_cross_validation (demo_world [0,0,0,1,0,0,0,0,1,0]) 5) = Some IndexError"
  using run_cross_validation_error[of "demo_world [0,0,0,1,0,0,0,0,1,0]" _ _ _ 5]
  by (simp add: average_metrics_empty demo_world_def)

lemma sum_metric_error: "sum_metric metric fold_metrics = Inl e \<Longrightarrow> e = KeyError"
  by (induction fold_metrics arbitrary: e) (auto simp: dict_get_def split: option.splits sum.splits)

lemma average_loop_error:
  "average_loop metrics fold_metrics k = Inl e \<Longrightarrow> e = KeyError \<or> e = ZeroDivisionError"
  by (induction metrics arbitrary: e)
     (auto split: sum.splits if_splits dest: sum_metric_error)

text \<open>
  Claim C8, amended. The averaging step over a list of fold metrics with no entry
  raises the built-in \<open>IndexError\<close> of \<open>fold_metrics[0]\<close>, for every \<open>k\<close>: the division
  by \<open>k\<close> is not reached, and so no \<open>ZeroDivisionError\<close> even for \<open>k = 0\<close>. The empty list
  is the only input on which the step raises \<open>IndexError\<close>.
\<close>

theorem cv_empty_metrics_index_error:
  "average_metrics [] k = Inl IndexError
   \<and> (average_metrics fold_metrics k = Inl IndexError \<longleftrightarrow> fold_metrics = [])"
proof
  show "average_metrics [] k = Inl IndexError" by (simp add: average_metrics_def)
next
  show "average_metrics fold_metrics k = Inl IndexError \<longleftrightarrow> fold_metrics = []"
  proof (cases fold_metrics)
    case Nil
    then show ?thesis by (simp add: average_metrics_def)
  next
    case (Cons first rest)
    then show ?thesis
      using average_loop_error[of "dict_keys first" fold_metrics k IndexError]
      by (auto simp: average_metrics_def)
  qed
qed

text \<open>
  Claim C9, as stated, fails: in a population of ten patients with two positives
  the split with test fraction \<open>0.2\<close> succeeds, and both positives are in the train
  subset; the test subset has no positive and nothing is raised.
\<close>

theorem small_class_counterexample:
  "count_list [0,0,0,1,0,0,0,0,1,0::int] 1 = 2
   \<and> split_population (demo_world [0,0,0,1,0,0,0,0,1,0]) =
     Inr ([17, 19, 11, 18, 10, 15, 13, 16], [14, 12], [0, 0, 0, 1, 0, 0, 1, 0], [0, 0],
          [''h'', ''j'', ''b'', ''i'', ''a'', ''f'', ''d'', ''g''], [''e'', ''c''])"
  using demo_split_eval by simp

text \<open>
  Claim C9, amended. When a label class of the population has fewer than two
  members the split raises the library's \<open>ValueError\<close>; \<open>generate_data\<close> does not catch
  it, so the method ends with that exception before it writes anything.
\<close>

theorem small_class_value_error:
  assumes "\<not> use_pregen a"
    and "preprocesses_data w ''data/clinical_data/clinical_Data.csv'' = (X, y, ids)"
    and "c \<in> set y" and "count_list y c < 2"
  shows "generate_data w a = ([], Some ValueError)"
  using assms(1,2)
  by (simp add: generate_data_def split_population_def
      train_test_split_small_class[OF assms(3,4)])

theorem small_class_value_error_witness:
  "generate_data (demo_world [0,0,0,1,0,0,0,0,0,0]) \<lparr>use_pregen = False, data_type = ''both''\<rparr>
     = ([], Some ValueError)"
proof -
  have p: "preprocesses_data (demo_world [0,0,0,1,0,0,0,0,0,0])
      ''data/clinical_data/clinical_Data.csv''
    = ([10, 11, 12, 13, 14, 15, 16, 17, 18, 19], [0,0,0,1,0,0,0,0,0,0],
       [''a'', ''b'', ''c'', ''d'', ''e'', ''f'', ''g'', ''h'', ''i'', ''j''])"
    by (simp add: demo_world_def)
  show ?thesis
    by (rule small_class_value_error[OF _ p, where c = 1]) simp_all
qed

text \<open>
  Claim C10. Without \<open>use_pregen\<close>, once the population (loaded from the clinical CSV)
  has been split, the four CSV files are written first, whatever \<open>data_type\<close> is; only
  the two embedding steps depend on it.
\<close>

theorem csv_written_for_every_data_type:
  assumes "\<not> use_pregen a" and "split_population w = Inr (trd, ted, trl, tel, tri, tei)"
  shows "generate_data w a =
    ([DataCsv ''data/train_data.csv'' trd,
      LabelsCsv ''data/labels/train_labels.csv'' (''TCIA_ID'', ''Censored_0_progressed_1'')
        (zip tri trl),
      DataCsv ''data/test_data.csv'' ted,
      LabelsCsv ''data/labels/test_labels.csv'' (''TCIA_ID'', ''Censored_0_progressed_1'')
        (zip tei tel)]
     @ (if data_type a = ''both'' \<or> data_type a = ''clinical''
        then snd (clinical_embeddings w a (trd, ted, trl, tel, tri, tei)) else [])
     @ (if data_type a = ''both'' \<or> data_type a = ''image''
        then image_embeddings w a else []), None)"
  using generate_data_success[OF assms]
  by (simp add: clinical_embeddings_def image_embeddings_def)

theorem csv_written_for_every_data_type_witness:
  "generate_data (demo_world [0,0,0,1,0,0,0,0,1,0]) \<lparr>use_pregen = False, data_type = ''image''\<rparr> =
    ([DataCsv ''data/train_data.csv'' [17, 19, 11, 18, 10, 15, 13, 16],
      LabelsCsv ''data/labels/train_labels.csv'' (''TCIA_ID'', ''Censored_0_progressed_1'')
        [(''h'', 0), (''j'', 0), (''b'', 0), (''i'', 1), (''a'', 0), (''f'', 0), (''d'', 1), (''g'', 0)],
      DataCsv ''data/test_data.csv'' [14, 12],
      LabelsCsv ''data/labels/test_labels.csv'' (''TCIA_ID'', ''Censored_0_progressed_1'')
        [(''e'', 0), (''c'', 0)]]
     @ image_embeddings (demo_world [0,0,0,1,0,0,0,0,1,0])
         \<lparr>use_pregen = False, data_type = ''image''\<rparr>, None)"
  using csv_written_for_every_data_type[OF _ demo_split_eval,
      of "\<lparr>use_pregen = False, data_type = ''image''\<rparr>"]
  by simp


subsection \<open>Row alignment of the files written\<close>





subsection \<open>The shuffle and the folds\<close>

lemma length_shuffle_raw: "length (fst (shuffle_raw bg i xs r)) = length xs"
  by (induction i arbitrary: xs r) (auto split: prod.splits)

lemma mset_shuffle_raw:
  "interval_ok bg \<Longrightarrow> i < length xs \<Longrightarrow> mset (fst (shuffle_raw bg i xs r)) = mset xs"
proof (induction i arbitrary: xs r)
  case 0
  then show ?case by simp
next
  case (Suc i)
  obtain j r' where jr: "random_interval bg (Suc i) r = (j, r')"
    by (cases "random_interval bg (Suc i) r")
  from Suc.prems(1) jr have "j \<le> Suc i"
    unfolding interval_ok_def by (metis fst_conv)
  with Suc.prems(2) have j: "j < length xs" by simp
  have "mset (xs[j := xs ! Suc i, Suc i := xs ! j]) = mset xs"
    using Suc.prems(2) j by (simp add: mset_swap)
  moreover have "i < length (xs[j := xs ! Suc i, Suc i := xs ! j])"
    using Suc.prems(2) by simp
  ultimately show ?case using Suc.IH[OF Suc.prems(1)] jr by simp
qed

lemma mset_shuffle: "interval_ok bg \<Longrightarrow> mset (fst (shuffle bg xs r)) = mset xs"
  by (cases xs) (simp_all add: shuffle_def mset_shuffle_raw)










subsection \<open>The stratified split\<close>

lemma shuffle_range:
  assumes "interval_ok bg"
  shows "distinct (fst (shuffle bg [0..<n] r))"
    and "set (fst (shuffle bg [0..<n] r)) = {..<n}"
    and "length (fst (shuffle bg [0..<n] r)) = n"
proof -
  have ms: "mset (fst (shuffle bg [0..<n] r)) = mset [0..<n]"
    by (rule mset_shuffle[OF assms])
  show "distinct (fst (shuffle bg [0..<n] r))"
    using mset_eq_imp_distinct_iff[OF ms] by simp
  show "set (fst (shuffle bg [0..<n] r)) = {..<n}"
    using mset_eq_setD[OF ms] by (simp add: lessThan_atLeast0)
  show "length (fst (shuffle bg [0..<n] r)) = n"
    using mset_eq_length[OF ms] by simp
qed

lemma choice_props:
  assumes "interval_ok bg" and "distinct a" and "k \<le> length a"
  shows "distinct (fst (choice bg a k r))"
    and "set (fst (choice bg a k r)) \<subseteq> set a"
    and "length (fst (choice bg a k r)) = k"
proof -
  define idx where "idx = fst (shuffle bg [0..<length a] r)"
  have c: "fst (choice bg a k r) = map (\<lambda>i. a ! i) (take k idx)"
    by (simp add: choice_def permutation_int_def idx_def split: prod.splits)
  have d: "distinct idx" and s: "set idx = {..<length a}" and l: "length idx = length a"
    unfolding idx_def using shuffle_range[OF assms(1)] by blast+
  have sub: "set (take k idx) \<subseteq> {..<length a}" using s set_take_subset[of k idx] by blast
  have "inj_on (\<lambda>i. a ! i) {..<length a}"
    using assms(2) by (auto simp: inj_on_def nth_eq_iff_index_eq)
  then have "inj_on (\<lambda>i. a ! i) (set (take k idx))"
    using sub by (rule inj_on_subset)
  then show "distinct (fst (choice bg a k r))" using d by (simp add: c distinct_map)
  show "set (fst (choice bg a k r)) \<subseteq> set a" using sub by (auto simp: c)
  show "length (fst (choice bg a k r)) = k" using l assms(3) by (simp add: c)
qed

lemma fold_update_length:
  "length (fold (\<lambda>i fl. fl[i := base ! i + (1::int)]) chosen fl0) = length fl0"
  by (induction chosen arbitrary: fl0) auto

lemma fold_update_nth:
  "i < length fl0 \<Longrightarrow>
     fold (\<lambda>i fl. fl[i := base ! i + (1::int)]) chosen fl0 ! i
       = (if i \<in> set chosen then base ! i + 1 else fl0 ! i)"
proof (induction chosen arbitrary: fl0 rule: rev_induct)
  case Nil
  then show ?case by simp
next
  case (snoc c chosen)
  then show ?case by (cases "c = i") (auto simp: fold_update_length)
qed

lemma sum_list_pointwise_add:
  assumes "length (ys :: int list) = length xs"
    and "\<And>i. i < length xs \<Longrightarrow> ys ! i = xs ! i + (if i \<in> A then 1 else 0)"
  shows "sum_list ys = sum_list xs + int (card (A \<inter> {..<length xs}))"
proof -
  have "sum_list ys = (\<Sum>i<length xs. ys ! i)"
    using assms(1) by (simp add: sum_list_sum_nth atLeast0LessThan)
  also have "\<dots> = (\<Sum>i<length xs. xs ! i + (if i \<in> A then 1 else 0))"
    using assms(2) by simp
  also have "\<dots> = (\<Sum>i<length xs. xs ! i) + (\<Sum>i<length xs. if i \<in> A then 1 else 0)"
    by (simp add: sum.distrib)
  also have "(\<Sum>i<length xs. if i \<in> A then 1 else 0 :: int) = int (card ({..<length xs} \<inter> A))"
    by (simp add: sum.If_cases)
  finally show ?thesis by (simp add: sum_list_sum_nth atLeast0LessThan Int_commute)
qed

lemma add_by_remainder_props:
  assumes "interval_ok bg" and "length floored = length remainder"
    and "distinct values" and "0 \<le> need"
    and "need \<le> int (card {i. i < length remainder \<and> remainder ! i \<in> set values})"
  shows "length (fst (add_by_remainder bg remainder values floored need r)) = length remainder
     \<and> (\<forall>i<length remainder.
           fst (add_by_remainder bg remainder values floored need r) ! i = floored ! i
           \<or> (remainder ! i \<in> set values
              \<and> fst (add_by_remainder bg remainder values floored need r) ! i = floored ! i + 1))
     \<and> sum_list (fst (add_by_remainder bg remainder values floored need r))
          = sum_list floored + need"
  using assms(2-)
proof (induction "values" arbitrary: floored need r)
  case Nil
  then show ?case by simp
next
  case (Cons v vs)
  define inds where "inds = filter (\<lambda>i. remainder ! i = v) [0..<length remainder]"
  define add_now where "add_now = min (int (length inds)) need"
  define chosen where "chosen = fst (choice bg inds (nat add_now) r)"
  define r' where "r' = snd (choice bg inds (nat add_now) r)"
  define floored' where "floored' = fold (\<lambda>i fl. fl[i := floored ! i + 1]) chosen floored"
  define need' where "need' = need - add_now"
  have an: "0 \<le> add_now" "nat add_now \<le> length inds" "add_now \<le> need"
    using Cons.prems(3) by (auto simp: add_now_def)
  have dinds: "distinct inds" by (simp add: inds_def)
  have ch: "distinct chosen" "set chosen \<subseteq> set inds" "length chosen = nat add_now"
    unfolding chosen_def using choice_props[OF assms(1) dinds an(2)] by blast+
  have sinds: "set inds = {i. i < length remainder \<and> remainder ! i = v}"
    by (auto simp: inds_def)
  have len': "length floored' = length remainder"
    by (simp add: floored'_def fold_update_length Cons.prems(1))
  have nth': "\<And>i. i < length remainder \<Longrightarrow>
      floored' ! i = floored ! i + (if i \<in> set chosen then 1 else 0)"
    by (simp add: floored'_def fold_update_nth Cons.prems(1))
  have "set chosen \<inter> {..<length floored} = set chosen"
    using ch(2) sinds Cons.prems(1) by auto
  then have sum': "sum_list floored' = sum_list floored + add_now"
    using sum_list_pointwise_add[of floored' floored "set chosen"] len' nth' Cons.prems(1)
      ch(1,3) an(1) by (simp add: distinct_card)
  have step: "add_by_remainder bg remainder (v # vs) floored need r =
      (if need' = 0 then (floored', r') else add_by_remainder bg remainder vs floored' need' r')"
    by (simp add: Let_def inds_def[symmetric] add_now_def[symmetric] chosen_def r'_def
        floored'_def need'_def split: prod.splits)
  show ?case
  proof (cases "need' = 0")
    case True
    then have res: "fst (add_by_remainder bg remainder (v # vs) floored need r) = floored'"
      unfolding step by simp
    have "need = add_now" using True by (simp add: need'_def)
    then show ?thesis unfolding res using len' nth' sum' ch(2) sinds by auto
  next
    case False
    then have res: "fst (add_by_remainder bg remainder (v # vs) floored need r)
        = fst (add_by_remainder bg remainder vs floored' need' r')"
      unfolding step by simp
    have full: "add_now = int (length inds)" using False an(3)
      by (auto simp: need'_def add_now_def min_def split: if_splits)
    have vnot: "v \<notin> set vs" using Cons.prems(2) by simp
    have "{i. i < length remainder \<and> remainder ! i \<in> set (v # vs)}
        = set inds \<union> {i. i < length remainder \<and> remainder ! i \<in> set vs}"
      by (auto simp: sinds)
    moreover have "set inds \<inter> {i. i < length remainder \<and> remainder ! i \<in> set vs} = {}"
      using vnot by (auto simp: sinds)
    ultimately have "card {i. i < length remainder \<and> remainder ! i \<in> set (v # vs)}
        = length inds + card {i. i < length remainder \<and> remainder ! i \<in> set vs}"
      using dinds by (simp add: card_Un_disjoint distinct_card)
    then have n2: "need' \<le> int (card {i. i < length remainder \<and> remainder ! i \<in> set vs})"
      using Cons.prems(4) full by (simp add: need'_def)
    have n1: "0 \<le> need'" using an(3) by (simp add: need'_def)
    have d2: "distinct vs" using Cons.prems(2) by simp
    note IH = Cons.IH[OF len' d2 n1 n2, of r']
    have allch: "set chosen = set inds"
      using ch full by (metis card_subset_eq distinct_card dinds List.finite_set nat_int)
    show ?thesis
      unfolding res
    proof (intro conjI allI impI)
      show "length (fst (add_by_remainder bg remainder vs floored' need' r')) = length remainder"
        using IH by blast
    next
      fix i assume i: "i < length remainder"
      from IH i have o: "fst (add_by_remainder bg remainder vs floored' need' r') ! i = floored' ! i
           \<or> (remainder ! i \<in> set vs
              \<and> fst (add_by_remainder bg remainder vs floored' need' r') ! i = floored' ! i + 1)"
        by blast
      show "fst (add_by_remainder bg remainder vs floored' need' r') ! i = floored ! i
           \<or> (remainder ! i \<in> set (v # vs)
              \<and> fst (add_by_remainder bg remainder vs floored' need' r') ! i = floored ! i + 1)"
      proof (cases "remainder ! i = v")
        case True
        then have "i \<in> set chosen" using allch sinds i by simp
        moreover have "remainder ! i \<notin> set vs" using True vnot by simp
        ultimately show ?thesis using o nth'[OF i] True by simp
      next
        case F: False
        then have "i \<notin> set chosen" using allch sinds by simp
        then show ?thesis using o nth'[OF i] by auto
      qed
    next
      show "sum_list (fst (add_by_remainder bg remainder vs floored' need' r'))
          = sum_list floored + need"
        using IH sum' by (simp add: need'_def)
    qed
  qed
qed

lemma sum_list_scaled:
  "sum_list (map (\<lambda>c. of_int c / s * t) cs) = (of_int (sum_list cs) / s * t :: rat)"
  by (induction cs) (simp_all add: add_divide_distrib distrib_right)

lemma floor_sum_bounds:
  "of_int (sum_list (map floor xs)) \<le> sum_list (xs :: rat list)
   \<and> sum_list xs \<le> of_int (sum_list (map floor xs)) + of_nat (length xs)"
proof (induction xs)
  case Nil
  then show ?case by simp
next
  case (Cons x xs)
  have a: "of_int \<lfloor>x\<rfloor> \<le> x" and b: "x \<le> of_int \<lfloor>x\<rfloor> + 1" by linarith+
  have c: "of_int (sum_list (map floor (x # xs))) = of_int \<lfloor>x\<rfloor> + (of_int (sum_list (map floor xs)) :: rat)"
    by simp
  have d: "sum_list (x # xs) = x + sum_list xs" "(of_nat (length (x # xs)) :: rat) = 1 + of_nat (length xs)"
    by simp_all
  show ?case unfolding c d using a b Cons.IH by linarith
qed

lemma approximate_mode_props:
  assumes "interval_ok bg" and "0 < sum_list cs"
  shows "length (fst (approximate_mode bg cs n r)) = length cs
     \<and> (\<forall>i<length cs.
           \<lfloor>of_int (cs ! i) / of_int (sum_list cs) * (of_int n :: rat)\<rfloor>
              \<le> fst (approximate_mode bg cs n r) ! i
           \<and> fst (approximate_mode bg cs n r) ! i
              \<le> \<lfloor>of_int (cs ! i) / of_int (sum_list cs) * (of_int n :: rat)\<rfloor> + 1)
     \<and> sum_list (fst (approximate_mode bg cs n r)) = n"
proof -
  define cont :: "rat list" where
    "cont = map (\<lambda>c. of_int c / of_int (sum_list cs) * of_int n) cs"
  define floored where "floored = map floor cont"
  define need where "need = n - sum_list floored"
  define remainder where "remainder = map (\<lambda>c. c - of_int \<lfloor>c\<rfloor>) cont"
  define vals where "vals = rev (sort (remdups remainder))"
  have am: "approximate_mode bg cs n r =
      (if need > 0 then add_by_remainder bg remainder vals floored need r else (floored, r))"
    by (simp add: approximate_mode_def Let_def cont_def floored_def need_def remainder_def
        vals_def)
  have sc: "sum_list cont = of_int n"
    unfolding cont_def sum_list_scaled using assms(2) by simp
  have b: "of_int (sum_list floored) \<le> (of_int n :: rat)"
      "(of_int n :: rat) \<le> of_int (sum_list floored) + of_nat (length cs)"
    using floor_sum_bounds[of cont] sc by (simp_all add: floored_def cont_def)
  have n0: "0 \<le> need" using b(1) by (simp add: need_def)
  have "(of_int need :: rat) \<le> of_int (int (length cs))"
    using b(2) by (simp add: need_def)
  then have n1: "need \<le> int (length cs)" by (simp only: of_int_le_iff)
  have lr: "length remainder = length cs" "length floored = length cs"
    by (simp_all add: remainder_def floored_def cont_def)
  have fl: "\<And>i. i < length cs \<Longrightarrow>
      floored ! i = \<lfloor>of_int (cs ! i) / of_int (sum_list cs) * (of_int n :: rat)\<rfloor>"
    by (simp add: floored_def cont_def)
  show ?thesis
  proof (cases "need > 0")
    case False
    then have "need = 0" using n0 by simp
    then have "sum_list floored = n" by (simp add: need_def)
    then show ?thesis using False lr fl by (simp add: am)
  next
    case True
    have "{i. i < length remainder \<and> remainder ! i \<in> set vals} = {..<length cs}"
      by (auto simp: vals_def lr)
    then have c: "need \<le> int (card {i. i < length remainder \<and> remainder ! i \<in> set vals})"
      using n1 by simp
    have d: "distinct vals" by (simp add: vals_def)
    have l: "length floored = length remainder" by (simp add: lr)
    note P = add_by_remainder_props[OF assms(1) l d n0 c, of r]
    have res: "fst (approximate_mode bg cs n r)
        = fst (add_by_remainder bg remainder vals floored need r)"
      using True by (simp add: am)
    show ?thesis
      unfolding res
    proof (intro conjI allI impI)
      show "length (fst (add_by_remainder bg remainder vals floored need r)) = length cs"
        using P lr by simp
    next
      fix i assume i: "i < length cs"
      then have "fst (add_by_remainder bg remainder vals floored need r) ! i = floored ! i
          \<or> fst (add_by_remainder bg remainder vals floored need r) ! i = floored ! i + 1"
        using P lr by auto
      then show "\<lfloor>of_int (cs ! i) / of_int (sum_list cs) * (of_int n :: rat)\<rfloor>
              \<le> fst (add_by_remainder bg remainder vals floored need r) ! i"
        using fl[OF i] by auto
    next
      fix i assume i: "i < length cs"
      then have "fst (add_by_remainder bg remainder vals floored need r) ! i = floored ! i
          \<or> fst (add_by_remainder bg remainder vals floored need r) ! i = floored ! i + 1"
        using P lr by auto
      then show "fst (add_by_remainder bg remainder vals floored need r) ! i
              \<le> \<lfloor>of_int (cs ! i) / of_int (sum_list cs) * (of_int n :: rat)\<rfloor> + 1"
        using fl[OF i] by auto
    next
      show "sum_list (fst (add_by_remainder bg remainder vals floored need r)) = n"
        using P by (simp add: need_def)
    qed
  qed
qed

lemma approximate_mode_all:
  assumes "0 < sum_list cs"
  shows "approximate_mode bg cs (sum_list cs) r = (cs, r)"
proof -
  have "map (\<lambda>c. \<lfloor>of_int c / of_int (sum_list cs) * (of_int (sum_list cs) :: rat)\<rfloor>) cs = cs"
    using assms by (simp add: map_idI)
  then show ?thesis by (simp add: approximate_mode_def Let_def comp_def)
qed

lemma approximate_mode_below_count:
  assumes "interval_ok bg" and "0 < sum_list cs" and "0 \<le> n" and "n < sum_list cs"
    and "i < length cs" and "0 < cs ! i"
  shows "0 \<le> fst (approximate_mode bg cs n r) ! i"
    and "fst (approximate_mode bg cs n r) ! i \<le> cs ! i"
proof -
  let ?x = "of_int (cs ! i) / of_int (sum_list cs) * (of_int n :: rat)"
  from approximate_mode_props[OF assms(1,2), of n r] assms(5)
  have b: "\<lfloor>?x\<rfloor> \<le> fst (approximate_mode bg cs n r) ! i"
    "fst (approximate_mode bg cs n r) ! i \<le> \<lfloor>?x\<rfloor> + 1" by blast+
  have "0 \<le> ?x" using assms(2,3,6) by simp
  then have "0 \<le> \<lfloor>?x\<rfloor>" by simp
  then show "0 \<le> fst (approximate_mode bg cs n r) ! i" using b(1) by linarith
  have "(of_int n :: rat) / of_int (sum_list cs) < 1" using assms(2,4) by simp
  then have "of_int (cs ! i) * ((of_int n :: rat) / of_int (sum_list cs)) < of_int (cs ! i) * 1"
    using assms(6) by (intro mult_strict_left_mono) simp_all
  then have "?x < of_int (cs ! i)" by (simp add: field_simps)
  then have "\<lfloor>?x\<rfloor> < cs ! i" by (simp add: floor_less_iff)
  then show "fst (approximate_mode bg cs n r) ! i \<le> cs ! i" using b(2) by simp
qed

lemma approximate_mode_scenario:
  "approximate_mode bg [80, 20] 80 r = ([64, 16], r)"
  "approximate_mode bg [16, 4] 20 r = ([16, 4], r)"
  by (simp_all add: approximate_mode_def)

lemma take_clip_perm:
  assumes "interval_ok bg"
  shows "mset (take_clip ci (fst (permutation_int bg (length ci) r))) = mset ci"
proof -
  define perm where "perm = fst (permutation_int bg (length ci) r)"
  have ms: "mset perm = mset [0..<length ci]"
    unfolding perm_def permutation_int_def by (rule mset_shuffle[OF assms])
  have "\<forall>j\<in>set perm. j < length ci" using mset_eq_setD[OF ms] by auto
  then have "take_clip ci perm = map (\<lambda>j. ci ! j) perm"
    by (auto simp: take_clip_def min_def)
  then have "mset (take_clip ci perm) = image_mset (\<lambda>j. ci ! j) (mset perm)" by simp
  also have "\<dots> = mset (map (\<lambda>j. ci ! j) [0..<length ci])" by (simp add: ms)
  also have "\<dots> = mset ci" by (simp add: map_nth)
  finally show ?thesis by (simp add: perm_def)
qed

lemma py_slice_split:
  assumes "0 \<le> n" and "0 \<le> t" and "n + t = int (length xs)"
  shows "py_slice 0 n xs = take (nat n) xs" and "py_slice n (n + t) xs = drop (nat n) xs"
proof -
  have a: "nat n \<le> length xs" "nat (n + t) = length xs" "\<not> n < 0" "\<not> n + t < 0"
    using assms by linarith+
  show "py_slice 0 n xs = take (nat n) xs"
    using a by (simp add: py_slice_def slice_bound_def min_def)
  show "py_slice n (n + t) xs = drop (nat n) xs"
    using a by (simp add: py_slice_def slice_bound_def min_def)
qed

lemma draw_classes_all:
  assumes "interval_ok bg"
  shows "\<forall>(ci, n, t)\<in>set triples. 0 \<le> n \<and> 0 \<le> t \<and> n + t = int (length ci) \<Longrightarrow>
     mset (fst (fst (draw_classes bg triples train test r)))
           + mset (snd (fst (draw_classes bg triples train test r)))
         = mset train + mset test + mset (concat (map fst triples))
     \<and> length (fst (fst (draw_classes bg triples train test r)))
         = length train + sum_list (map (\<lambda>(ci, n, t). nat n) triples)
     \<and> ((\<forall>(ci, n, t)\<in>set triples. (\<forall>i\<in>set ci. P i) \<or> (\<forall>i\<in>set ci. \<not> P i)) \<longrightarrow>
         length (filter P (fst (fst (draw_classes bg triples train test r))))
           = length (filter P train)
             + sum_list (map (\<lambda>(ci, n, t). if (\<exists>i\<in>set ci. P i) then nat n else 0) triples)
         \<and> length (filter P (snd (fst (draw_classes bg triples train test r))))
           = length (filter P test)
             + sum_list (map (\<lambda>(ci, n, t). if (\<exists>i\<in>set ci. P i) then nat t else 0) triples))"
proof (induction triples arbitrary: train test r)
  case Nil
  show ?case by simp
next
  case (Cons tr triples)
  obtain ci n t where tr: "tr = (ci, n, t)" by (cases tr)
  define perm where "perm = fst (permutation_int bg (length ci) r)"
  define r' where "r' = snd (permutation_int bg (length ci) r)"
  define pic where "pic = take_clip ci perm"
  define train' where "train' = train @ take (nat n) pic"
  define test' where "test' = test @ drop (nat n) pic"
  have ms: "mset pic = mset ci" unfolding pic_def perm_def by (rule take_clip_perm[OF assms(1)])
  then have lp: "length pic = length ci" by (rule mset_eq_length)
  have nt: "0 \<le> n" "0 \<le> t" "n + t = int (length pic)"
    and rest: "\<forall>(ci, n, t)\<in>set triples. 0 \<le> n \<and> 0 \<le> t \<and> n + t = int (length ci)"
    using Cons.prems by (auto simp: tr lp)
  have sl: "py_slice 0 n pic = take (nat n) pic" "py_slice n (n + t) pic = drop (nat n) pic"
    using py_slice_split[OF nt] by simp_all
  have step: "draw_classes bg (tr # triples) train test r = draw_classes bg triples train' test' r'"
  proof -
    have "draw_classes bg (tr # triples) train test r =
        draw_classes bg triples (train @ py_slice 0 n pic) (test @ py_slice n (n + t) pic) r'"
      by (simp add: tr perm_def r'_def pic_def Let_def split: prod.splits)
    then show ?thesis by (simp only: sl train'_def test'_def)
  qed
  have m2: "mset train' + mset test' = mset train + mset test + mset ci"
  proof -
    have "mset (take (nat n) pic) + mset (drop (nat n) pic) = mset (take (nat n) pic @ drop (nat n) pic)"
      by (simp only: mset_append)
    then have "mset (take (nat n) pic) + mset (drop (nat n) pic) = mset ci"
      by (simp only: append_take_drop_id ms)
    then show ?thesis by (simp add: train'_def test'_def ac_simps)
  qed
  have lens: "length (take (nat n) pic) = nat n" "length (drop (nat n) pic) = nat t"
    using nt by auto
  have sp: "set pic = set ci" using ms by (rule mset_eq_setD)
  note IH = Cons.IH[OF rest, of train' test' r']
  show ?case
    unfolding step
  proof (intro conjI impI)
    show "mset (fst (fst (draw_classes bg triples train' test' r')))
           + mset (snd (fst (draw_classes bg triples train' test' r')))
         = mset train + mset test + mset (concat (map fst (tr # triples)))"
      using IH m2 by (simp add: tr)
  next
    show "length (fst (fst (draw_classes bg triples train' test' r')))
         = length train + sum_list (map (\<lambda>(ci, n, t). nat n) (tr # triples))"
      using IH lens by (simp add: tr train'_def)
  next
    assume d: "\<forall>(ci, n, t)\<in>set (tr # triples). (\<forall>i\<in>set ci. P i) \<or> (\<forall>i\<in>set ci. \<not> P i)"
    then have dich: "(\<forall>i\<in>set ci. P i) \<or> (\<forall>i\<in>set ci. \<not> P i)"
      and drest: "\<forall>(ci, n, t)\<in>set triples. (\<forall>i\<in>set ci. P i) \<or> (\<forall>i\<in>set ci. \<not> P i)"
      by (auto simp: tr)
    have f: "length (filter P (take (nat n) pic)) = (if (\<exists>i\<in>set ci. P i) then nat n else 0)
        \<and> length (filter P (drop (nat n) pic)) = (if (\<exists>i\<in>set ci. P i) then nat t else 0)"
    proof (cases "\<exists>i\<in>set ci. P i")
      case True
      then have "\<forall>i\<in>set pic. P i" using dich sp by auto
      then have "filter P (take (nat n) pic) = take (nat n) pic"
        "filter P (drop (nat n) pic) = drop (nat n) pic"
        by (auto simp: filter_id_conv dest: in_set_takeD in_set_dropD)
      then show ?thesis using True lens by simp
    next
      case False
      then have "\<forall>i\<in>set pic. \<not> P i" using sp by auto
      then have "filter P (take (nat n) pic) = []" "filter P (drop (nat n) pic) = []"
        by (auto simp: filter_empty_conv dest: in_set_takeD in_set_dropD)
      then show ?thesis using False by simp
    qed
    from IH drest have
      "length (filter P (fst (fst (draw_classes bg triples train' test' r'))))
           = length (filter P train')
             + sum_list (map (\<lambda>(ci, n, t). if (\<exists>i\<in>set ci. P i) then nat n else 0) triples)"
      "length (filter P (snd (fst (draw_classes bg triples train' test' r'))))
           = length (filter P test')
             + sum_list (map (\<lambda>(ci, n, t). if (\<exists>i\<in>set ci. P i) then nat t else 0) triples)"
      by blast+
    then show "length (filter P (fst (fst (draw_classes bg triples train' test' r'))))
           = length (filter P train)
             + sum_list (map (\<lambda>(ci, n, t). if (\<exists>i\<in>set ci. P i) then nat n else 0) (tr # triples))"
      "length (filter P (snd (fst (draw_classes bg triples train' test' r'))))
           = length (filter P test)
             + sum_list (map (\<lambda>(ci, n, t). if (\<exists>i\<in>set ci. P i) then nat t else 0) (tr # triples))"
      using f by (simp_all add: tr train'_def test'_def)
  qed
qed

lemma concat_classes_mset:
  "distinct cs \<Longrightarrow>
     mset (concat (map (\<lambda>c. filter (\<lambda>i. f i = c) xs) cs)) = mset (filter (\<lambda>i. f i \<in> set cs) xs)"
proof (induction cs)
  case Nil
  then show ?case by simp
next
  case (Cons c cs)
  have "mset (filter (\<lambda>i. f i = c) xs) + mset (filter (\<lambda>i. f i \<in> set cs) xs)
      = mset (filter (\<lambda>i. f i = c \<or> f i \<in> set cs) xs)"
    using Cons.prems by (induction xs) auto
  then show ?case using Cons by simp
qed

lemma class_indices_mset: "mset (concat (class_indices y)) = mset [0..<length y]"
proof -
  have "filter (\<lambda>i. y ! i \<in> set y) [0..<length y] = [0..<length y]"
    by (simp add: filter_id_conv)
  then show ?thesis
    using concat_classes_mset[of "unique_classes y" "\<lambda>i. y ! i" "[0..<length y]"]
    by (simp add: class_indices_def unique_classes_def)
qed

lemma class_counts_sum:
  "sum_list (map (\<lambda>ix. int (length ix)) (class_indices y)) = int (length y)"
proof -
  have "length (concat (class_indices y)) = length y"
    using mset_eq_length[OF class_indices_mset[of y]] by simp
  then have "sum_list (map length (class_indices y)) = length y" by (simp add: length_concat)
  moreover have "\<And>xs :: nat list list.
      sum_list (map (\<lambda>ix. int (length ix)) xs) = int (sum_list (map length xs))"
  proof -
    fix xs :: "nat list list"
    show "sum_list (map (\<lambda>ix. int (length ix)) xs) = int (sum_list (map length xs))"
      by (induction xs) auto
  qed
  ultimately show ?thesis by simp
qed

lemma stratified_shuffle_split_Inr:
  assumes "stratified_shuffle_split bg g rs ts tr n y = Inr (train, test)"
  shows "\<exists>n_train n_test n_i rng1 t_i rng2 tr0 te0 rng3 rng4 rng5.
      length y = n
    \<and> validate_shuffle_split n ts tr (1 / 10) = Inr (n_train, n_test)
    \<and> \<not> list_ex (\<lambda>c. c < 2) (map (\<lambda>ix. int (length ix)) (class_indices y))
    \<and> length (unique_classes y) \<le> n_train \<and> length (unique_classes y) \<le> n_test
    \<and> approximate_mode bg (map (\<lambda>ix. int (length ix)) (class_indices y)) (int n_train)
          (check_random_state bg g rs) = (n_i, rng1)
    \<and> approximate_mode bg
          (map2 (\<lambda>c k. c - k) (map (\<lambda>ix. int (length ix)) (class_indices y)) n_i)
          (int n_test) rng1 = (t_i, rng2)
    \<and> draw_classes bg (zip (class_indices y) (zip n_i t_i)) [] [] rng2 = ((tr0, te0), rng3)
    \<and> permutation bg tr0 rng3 = (train, rng4)
    \<and> permutation bg te0 rng4 = (test, rng5)"
  using assms
  by (auto simp: stratified_shuffle_split_def Let_def split: if_splits sum.splits prod.splits)

lemma validate_shuffle_split_ints:
  assumes "validate_shuffle_split n (SizeInt (int te)) (SizeInt (int tr)) d = Inr (a, b)"
  shows "a = tr \<and> b = te \<and> tr + te \<le> n \<and> 0 < tr"
  using assms
  by (auto simp: validate_shuffle_split_def size_out_of_range_def Let_def split: if_splits)

lemma sum_list_map2_diff:
  "length xs = length ys \<Longrightarrow>
     sum_list (map2 (\<lambda>c k. c - k) xs ys) = sum_list xs - (sum_list ys :: int)"
  by (induction xs ys rule: list_induct2) auto

lemma sum_list_map_nat:
  "\<forall>x\<in>set xs. 0 \<le> x \<Longrightarrow> int (sum_list (map nat xs)) = sum_list xs"
  by (induction xs) auto

lemma sum_list_delta:
  assumes "j < length xs" and "\<And>m. m < length xs \<Longrightarrow> m \<noteq> j \<Longrightarrow> xs ! m = (0::nat)"
  shows "sum_list xs = xs ! j"
proof -
  have "sum_list xs = (\<Sum>m<length xs. xs ! m)"
    by (simp add: sum_list_sum_nth atLeast0LessThan)
  also have "\<dots> = (\<Sum>m<length xs. if m = j then xs ! j else 0)"
    using assms(2) by (intro sum.cong) auto
  also have "\<dots> = xs ! j" using assms(1) by simp
  finally show ?thesis .
qed

lemma class_indices_nth:
  "j < length (unique_classes y) \<Longrightarrow>
     class_indices y ! j = filter (\<lambda>i. y ! i = unique_classes y ! j) [0..<length y]"
  by (simp add: class_indices_def)

lemma unique_classes_facts:
  "distinct (unique_classes y)" "set (unique_classes y) = set y"
  "length (class_indices y) = length (unique_classes y)"
  by (simp_all add: unique_classes_def class_indices_def)

lemma stratified_split_props:
  assumes ok: "interval_ok bg"
    and res: "stratified_shuffle_split bg g rs (SizeInt (int n_test)) (SizeInt (int n_train)) n y
                = Inr (train, test)"
    and tot: "n_train + n_test = n"
  shows "mset train + mset test = mset [0..<n]
     \<and> length train = n_train \<and> length test = n_test \<and> length y = n
     \<and> (\<forall>j<length (unique_classes y).
          length (filter (\<lambda>i. y ! i = unique_classes y ! j) train)
            = nat (fst (approximate_mode bg (map (\<lambda>ix. int (length ix)) (class_indices y))
                     (int n_train) (check_random_state bg g rs)) ! j)
        \<and> length (filter (\<lambda>i. y ! i = unique_classes y ! j) test)
            = nat (int (length (class_indices y ! j))
                - fst (approximate_mode bg (map (\<lambda>ix. int (length ix)) (class_indices y))
                     (int n_train) (check_random_state bg g rs)) ! j)
        \<and> 0 \<le> fst (approximate_mode bg (map (\<lambda>ix. int (length ix)) (class_indices y))
                     (int n_train) (check_random_state bg g rs)) ! j
        \<and> fst (approximate_mode bg (map (\<lambda>ix. int (length ix)) (class_indices y))
                     (int n_train) (check_random_state bg g rs)) ! j
            \<le> int (length (class_indices y ! j)))"
proof -
  define counts where "counts = map (\<lambda>ix. int (length ix)) (class_indices y)"
  define cls where "cls = unique_classes y"
  define k where "k = length cls"
  define rng0 where "rng0 = check_random_state bg g rs"
  from stratified_shuffle_split_Inr[OF res]
  obtain a b n_i rng1 t_i rng2 tr0 te0 rng3 rng4 rng5 where
    ly: "length y = n"
    and v: "validate_shuffle_split n (SizeInt (int n_test)) (SizeInt (int n_train)) (1 / 10)
              = Inr (a, b)"
    and two: "\<not> list_ex (\<lambda>c. c < 2) counts"
    and ka: "k \<le> a" and kb: "k \<le> b"
    and am1: "approximate_mode bg counts (int a) rng0 = (n_i, rng1)"
    and am2: "approximate_mode bg (map2 (\<lambda>c k. c - k) counts n_i) (int b) rng1 = (t_i, rng2)"
    and dc: "draw_classes bg (zip (class_indices y) (zip n_i t_i)) [] [] rng2 = ((tr0, te0), rng3)"
    and p1: "permutation bg tr0 rng3 = (train, rng4)"
    and p2: "permutation bg te0 rng4 = (test, rng5)"
    unfolding counts_def cls_def k_def rng0_def by blast
  from validate_shuffle_split_ints[OF v] have ab: "a = n_train" "b = n_test" and trpos: "0 < n_train"
    by auto
  have lc: "length counts = k" "length (class_indices y) = k"
    by (simp_all add: counts_def k_def cls_def unique_classes_facts)
  have sc: "sum_list counts = int n" by (simp add: counts_def class_counts_sum ly)
  have npos: "0 < n" using trpos tot by simp
  then have "y \<noteq> []" using ly by auto
  then have "set cls \<noteq> {}" by (simp add: cls_def unique_classes_facts)
  then have kpos: "0 < k" by (auto simp: k_def)
  then have tepos: "0 < n_test" using kb ab by simp
  have cge: "\<And>j. j < k \<Longrightarrow> 2 \<le> counts ! j"
    using two lc by (auto simp: list_ex_iff not_less dest: nth_mem)
  have cnth: "\<And>j. j < k \<Longrightarrow> counts ! j = int (length (class_indices y ! j))"
    using lc by (simp add: counts_def)
  have ni: "n_i = fst (approximate_mode bg counts (int n_train) rng0)"
    using am1 ab by simp
  have scpos: "0 < sum_list counts" using sc npos by simp
  note P1 = approximate_mode_props[OF ok scpos, of "int n_train" rng0]
  have ln: "length n_i = k" using P1 lc by (simp add: ni)
  have sn: "sum_list n_i = int n_train" using P1 by (simp add: ni)
  have lt: "int n_train < sum_list counts" using sc tot tepos by simp
  have nb: "\<And>j. j < k \<Longrightarrow> 0 \<le> n_i ! j \<and> n_i ! j \<le> counts ! j"
  proof -
    fix j assume j: "j < k"
    then have jj: "j < length counts" "0 < counts ! j" using lc cge[OF j] by auto
    show "0 \<le> n_i ! j \<and> n_i ! j \<le> counts ! j"
      unfolding ni
      using approximate_mode_below_count[OF ok scpos _ lt jj, of rng0] by simp
  qed
  define remaining where "remaining = map2 (\<lambda>c k. c - k) counts n_i"
  have sr: "sum_list remaining = int n_test"
    using sum_list_map2_diff[of counts n_i] lc ln sc sn tot by (simp add: remaining_def)
  have "approximate_mode bg remaining (sum_list remaining) rng1 = (remaining, rng1)"
    by (rule approximate_mode_all) (simp add: sr tepos)
  then have ti: "t_i = remaining" using am2 ab sr by (simp add: remaining_def)
  have lti: "length t_i = k" by (simp add: ti remaining_def lc ln)
  have tnth: "\<And>j. j < k \<Longrightarrow> t_i ! j = counts ! j - n_i ! j"
    by (simp add: ti remaining_def lc ln)
  define triples where "triples = zip (class_indices y) (zip n_i t_i)"
  have ltr: "length triples = k" by (simp add: triples_def lc ln lti)
  have trn: "\<And>j. j < k \<Longrightarrow> triples ! j = (class_indices y ! j, n_i ! j, t_i ! j)"
    by (simp add: triples_def lc ln lti)
  have tr_ok: "\<forall>(ci, n, t)\<in>set triples. 0 \<le> n \<and> 0 \<le> t \<and> n + t = int (length ci)"
  proof -
    { fix x assume "x \<in> set triples"
      then obtain j where j: "j < k" "x = triples ! j"
        using ltr by (metis in_set_conv_nth)
      have "case x of (ci, n, t) \<Rightarrow> 0 \<le> n \<and> 0 \<le> t \<and> n + t = int (length ci)"
        using nb[OF j(1)] tnth[OF j(1)] cnth[OF j(1)] by (simp add: j(2) trn[OF j(1)])
    }
    then show ?thesis by blast
  qed
  have mf: "map fst triples = class_indices y"
    by (simp add: triples_def lc ln lti)
  have mn: "map (\<lambda>(ci, n, t). nat n) triples = map nat n_i"
    by (rule nth_equalityI) (simp_all add: ltr ln trn)
  note D = draw_classes_all[OF ok tr_ok, of "[]" "[]" rng2]
  have d0: "fst (draw_classes bg triples [] [] rng2) = (tr0, te0)"
    using dc by (simp add: triples_def)
  have m0: "mset tr0 + mset te0 = mset [0..<n]"
    using D[of "\<lambda>_. True"] by (simp add: d0 mf class_indices_mset ly)
  have "int (length tr0) = int (sum_list (map nat n_i))"
    using D[of "\<lambda>_. True"] by (simp add: d0 mn)
  also have "\<dots> = sum_list n_i"
    by (rule sum_list_map_nat) (metis nb ln in_set_conv_nth)
  finally have l0: "length tr0 = n_train" using sn by simp
  have "length tr0 + length te0 = n"
    using arg_cong[OF m0, of size] by simp
  then have l1: "length te0 = n_test" using l0 tot by simp
  have mt: "mset train = mset tr0" "mset test = mset te0"
    using p1 p2 mset_shuffle[OF ok, of tr0 rng3] mset_shuffle[OF ok, of te0 rng4]
    by (simp_all add: permutation_def)
  have flt: "\<And>P. length (filter P train) = length (filter P tr0)"
    "\<And>P. length (filter P test) = length (filter P te0)"
    using mt by (metis mset_filter size_mset)+
  have cnt: "\<And>j. j < k \<Longrightarrow>
      length (filter (\<lambda>i. y ! i = cls ! j) tr0) = nat (n_i ! j)
      \<and> length (filter (\<lambda>i. y ! i = cls ! j) te0) = nat (t_i ! j)"
  proof -
    fix j assume j: "j < k"
    let ?P = "\<lambda>i. y ! i = cls ! j"
    have mem: "\<And>m. m < k \<Longrightarrow> (\<exists>i\<in>set (class_indices y ! m). ?P i) \<longleftrightarrow> m = j"
    proof -
      fix m assume m: "m < k"
      have ci: "class_indices y ! m = filter (\<lambda>i. y ! i = cls ! m) [0..<length y]"
        using m by (simp add: class_indices_nth k_def cls_def)
      have "class_indices y ! m \<noteq> []" using cge[OF m] cnth[OF m] by auto
      then obtain i where i: "i \<in> set (class_indices y ! m)" by (cases "class_indices y ! m") auto
      have eq: "cls ! m = cls ! j \<longleftrightarrow> m = j"
        using m j by (simp add: nth_eq_iff_index_eq k_def cls_def unique_classes_facts(1))
      show "(\<exists>i\<in>set (class_indices y ! m). ?P i) \<longleftrightarrow> m = j"
        using i eq by (auto simp: ci)
    qed
    have dich: "\<forall>(ci, n, t)\<in>set triples. (\<forall>i\<in>set ci. ?P i) \<or> (\<forall>i\<in>set ci. \<not> ?P i)"
    proof -
      { fix x assume "x \<in> set triples"
        then obtain m where m: "m < k" "x = triples ! m"
          using ltr by (metis in_set_conv_nth)
        have ci: "class_indices y ! m = filter (\<lambda>i. y ! i = cls ! m) [0..<length y]"
          using m by (simp add: class_indices_nth k_def cls_def)
        have "case x of (ci, n, t) \<Rightarrow> (\<forall>i\<in>set ci. ?P i) \<or> (\<forall>i\<in>set ci. \<not> ?P i)"
          by (auto simp: m(2) trn[OF m(1)] ci)
      }
      then show ?thesis by blast
    qed
    have s1: "sum_list (map (\<lambda>(ci, n, t). if (\<exists>i\<in>set ci. ?P i) then nat n else 0) triples)
        = nat (n_i ! j)"
    proof -
      let ?xs = "map (\<lambda>(ci, n, t). if (\<exists>i\<in>set ci. ?P i) then nat n else 0) triples"
      have "sum_list ?xs = ?xs ! j"
        by (rule sum_list_delta) (simp_all add: ltr j trn mem)
      then show ?thesis using mem[OF j] by (simp add: ltr j trn)
    qed
    have s2: "sum_list (map (\<lambda>(ci, n, t). if (\<exists>i\<in>set ci. ?P i) then nat t else 0) triples)
        = nat (t_i ! j)"
    proof -
      let ?xs = "map (\<lambda>(ci, n, t). if (\<exists>i\<in>set ci. ?P i) then nat t else 0) triples"
      have "sum_list ?xs = ?xs ! j"
        by (rule sum_list_delta) (simp_all add: ltr j trn mem)
      then show ?thesis using mem[OF j] by (simp add: ltr j trn)
    qed
    from D[of ?P] dich show "length (filter ?P tr0) = nat (n_i ! j)
      \<and> length (filter ?P te0) = nat (t_i ! j)"
      by (simp add: d0 s1 s2)
  qed
  show ?thesis
  proof (intro conjI allI impI)
    show "mset train + mset test = mset [0..<n]" using m0 mt by simp
    show "length train = n_train" using l0 mset_eq_length[OF mt(1)] by simp
    show "length test = n_test" using l1 mset_eq_length[OF mt(2)] by simp
    show "length y = n" by (rule ly)
  next
    fix j assume j: "j < length (unique_classes y)"
    then have jk: "j < k" by (simp add: k_def cls_def)
    show "length (filter (\<lambda>i. y ! i = unique_classes y ! j) train)
            = nat (fst (approximate_mode bg (map (\<lambda>ix. int (length ix)) (class_indices y))
                     (int n_train) (check_random_state bg g rs)) ! j)"
      using cnt[OF jk] flt(1) by (simp add: ni counts_def rng0_def cls_def)
    show "length (filter (\<lambda>i. y ! i = unique_classes y ! j) test)
            = nat (int (length (class_indices y ! j))
                - fst (approximate_mode bg (map (\<lambda>ix. int (length ix)) (class_indices y))
                     (int n_train) (check_random_state bg g rs)) ! j)"
      using cnt[OF jk] flt(2) tnth[OF jk] cnth[OF jk]
      by (simp add: ni counts_def rng0_def cls_def)
    show "0 \<le> fst (approximate_mode bg (map (\<lambda>ix. int (length ix)) (class_indices y))
                     (int n_train) (check_random_state bg g rs)) ! j"
      using nb[OF jk] by (simp add: ni counts_def rng0_def)
    show "fst (approximate_mode bg (map (\<lambda>ix. int (length ix)) (class_indices y))
                     (int n_train) (check_random_state bg g rs)) ! j
            \<le> int (length (class_indices y ! j))"
      using nb[OF jk] cnth[OF jk] by (simp add: ni counts_def rng0_def)
  qed
qed

lemma count_list_map_nth:
  "count_list (map (\<lambda>i. y ! i) ix) c = length (filter (\<lambda>i. y ! i = c) ix)"
  by (induction ix) auto

lemma validate_shuffle_split_none:
  assumes "validate_shuffle_split n (SizeFloat f) SizeNone d = Inr (a, b)"
  shows "a + b = n \<and> 0 < a \<and> int b = \<lceil>f * of_int (int n)\<rceil>"
proof -
  have r: "0 < f" "f < 1" and nz: "int n - \<lceil>f * of_int (int n)\<rceil> \<noteq> 0"
    and a: "a = nat (int n - \<lceil>f * of_int (int n)\<rceil>)" and b: "b = nat \<lceil>f * of_int (int n)\<rceil>"
    using assms
    by (auto simp: validate_shuffle_split_def size_out_of_range_def Let_def not_le
        split: if_splits)
  have "f * of_int (int n) \<le> of_int (int n)"
    using r by (simp add: mult_left_le_one_le)
  then have u: "\<lceil>f * of_int (int n)\<rceil> \<le> int n" by (simp add: ceiling_le_iff)
  have "0 \<le> f * of_int (int n)" using r by simp
  from ceiling_mono[OF this] have l: "0 \<le> \<lceil>f * of_int (int n)\<rceil>" by simp
  define c where "c = \<lceil>f * of_int (int n)\<rceil>"
  have "c \<le> int n" "0 \<le> c" "int n - c \<noteq> 0" "a = nat (int n - c)" "b = nat c"
    using u l nz a b by (simp_all add: c_def)
  then have "a + b = n \<and> 0 < a \<and> int b = c" by linarith
  then show ?thesis by (simp add: c_def)
qed

lemma stratified_shuffle_split_succeeds:
  assumes "length y = n" and "0 < n_train" and "0 < n_test" and "n_train + n_test = n"
    and "\<forall>c\<in>set y. 2 \<le> count_list y c"
    and "length (unique_classes y) \<le> n_train" and "length (unique_classes y) \<le> n_test"
  shows "\<exists>train test. stratified_shuffle_split bg g rs (SizeInt (int n_test)) (SizeInt (int n_train)) n y
      = Inr (train, test)"
proof -
  have v: "validate_shuffle_split n (SizeInt (int n_test)) (SizeInt (int n_train)) (1 / 10)
      = Inr (n_train, n_test)"
    using assms(2,3,4) by (auto simp: validate_shuffle_split_def size_out_of_range_def Let_def)
  have two: "\<not> list_ex (\<lambda>c. c < 2) (map (\<lambda>ix. int (length ix)) (class_indices y))"
    using assms(5)
    by (auto simp: list_ex_iff class_indices_def class_count unique_classes_def not_less)
  show ?thesis
    using assms(1,6,7) two
    by (simp add: stratified_shuffle_split_def v Let_def split: prod.splits)
qed

lemma split_population_props:
  assumes ok: "interval_ok (rng w)"
    and p: "preprocesses_data w ''data/clinical_data/clinical_Data.csv'' = (X, y, ids)"
    and sp: "split_population w = Inr (trd, ted, trl, tel, tri, tei)"
  shows "\<exists>train test n_train n_test.
      length y = length X \<and> length ids = length X
      \<and> validate_shuffle_split (length X) (SizeFloat (1 / 5)) SizeNone (1 / 4) = Inr (n_train, n_test)
      \<and> n_train + n_test = length X
      \<and> stratified_shuffle_split (rng w) (global_rand w) (Some 42)
           (SizeInt (int n_test)) (SizeInt (int n_train)) (length X) y = Inr (train, test)
      \<and> mset train + mset test = mset [0..<length X]
      \<and> length train = n_train \<and> length test = n_test
      \<and> trd = map (\<lambda>i. X ! i) train \<and> ted = map (\<lambda>i. X ! i) test
      \<and> trl = map (\<lambda>i. y ! i) train \<and> tel = map (\<lambda>i. y ! i) test
      \<and> tri = map (\<lambda>i. ids ! i) train \<and> tei = map (\<lambda>i. ids ! i) test"
proof -
  have tts: "train_test_split (rng w) (global_rand w) X y ids (SizeFloat (1 / 5)) (Some 42) y
      = Inr (trd, ted, trl, tel, tri, tei)"
    using sp p by (simp add: split_population_def)
  from train_test_split_Inr[OF tts] obtain n_train n_test train test where
    len: "length y = length X" "length ids = length X"
    and v: "validate_shuffle_split (length X) (SizeFloat (1 / 5)) SizeNone (1 / 4)
              = Inr (n_train, n_test)"
    and s: "stratified_shuffle_split (rng w) (global_rand w) (Some 42)
           (SizeInt (int n_test)) (SizeInt (int n_train)) (length X) y = Inr (train, test)"
    and parts: "trd = map (\<lambda>i. X ! i) train" "ted = map (\<lambda>i. X ! i) test"
      "trl = map (\<lambda>i. y ! i) train" "tel = map (\<lambda>i. y ! i) test"
      "tri = map (\<lambda>i. ids ! i) train" "tei = map (\<lambda>i. ids ! i) test"
    by auto
  have tot: "n_train + n_test = length X"
    using validate_shuffle_split_none[OF v] by simp
  from stratified_split_props[OF ok s tot] have
    "mset train + mset test = mset [0..<length X]" "length train = n_train" "length test = n_test"
    by blast+
  then show ?thesis using len v tot s parts by blast
qed

lemma demo_world_rng_ok: "interval_ok (rng (demo_world L))"
  by (simp add: demo_world_def demo_interval_ok)



subsection \<open>Stratification by label\<close>

lemma binary_counts:
  "set y \<subseteq> {0, 1 :: int} \<Longrightarrow> count_list y 0 + count_list y 1 = length y"
  by (induction y) auto

lemma unique_classes_binary:
  assumes "set y = {0, 1 :: int}"
  shows "unique_classes y = [0, 1]"
proof -
  have "sorted (unique_classes y)" "distinct (unique_classes y)" "set (unique_classes y) = set [0, 1 :: int]"
    using assms by (simp_all add: unique_classes_def)
  moreover have "sorted [0, 1 :: int]" "distinct [0, 1 :: int]" by simp_all
  ultimately show ?thesis by (metis sorted_distinct_set_unique)
qed

lemma train_test_split_from_indices:
  assumes "length a2 = length a1" and "length a3 = length a1"
    and "validate_shuffle_split (length a1) ts SizeNone (1 / 4) = Inr (n_train, n_test)"
    and "stratified_shuffle_split bg g rs (SizeInt (int n_test)) (SizeInt (int n_train))
           (length a1) y = Inr (train, test)"
    and "\<forall>i\<in>set train. i < length a1" and "\<forall>i\<in>set test. i < length a1"
  shows "train_test_split bg g a1 a2 a3 ts rs y =
     Inr (map (\<lambda>i. a1 ! i) train, map (\<lambda>i. a1 ! i) test,
          map (\<lambda>i. a2 ! i) train, map (\<lambda>i. a2 ! i) test,
          map (\<lambda>i. a3 ! i) train, map (\<lambda>i. a3 ! i) test)"
  using assms
  by (simp add: train_test_split_def index_both_def safe_indexing_def list_all_iff)

lemma stratified_class_counts:
  assumes ok: "interval_ok bg"
    and res: "stratified_shuffle_split bg g rs (SizeInt (int n_test)) (SizeInt (int n_train)) n y
                = Inr (train, test)"
    and tot: "n_train + n_test = n"
    and c: "c \<in> set y"
  shows "count_list (map (\<lambda>i. y ! i) train) c + count_list (map (\<lambda>i. y ! i) test) c
           = count_list y c
     \<and> \<bar>of_nat (count_list (map (\<lambda>i. y ! i) train) c)
          - of_nat (count_list y c) / of_nat n * (of_nat n_train :: rat)\<bar> \<le> 1
     \<and> 0 < n_train \<and> 0 < n_test"
proof -
  define counts where "counts = map (\<lambda>ix. int (length ix)) (class_indices y)"
  define rng0 where "rng0 = check_random_state bg g rs"
  define n_i where "n_i = fst (approximate_mode bg counts (int n_train) rng0)"
  from c obtain j where j: "j < length (unique_classes y)" "unique_classes y ! j = c"
    by (metis in_set_conv_nth unique_classes_facts(2))
  from stratified_split_props[OF ok res tot] j(1) have
    ly: "length y = n"
    and tr: "length (filter (\<lambda>i. y ! i = unique_classes y ! j) train) = nat (n_i ! j)"
    and te: "length (filter (\<lambda>i. y ! i = unique_classes y ! j) test)
               = nat (int (length (class_indices y ! j)) - n_i ! j)"
    and b: "0 \<le> n_i ! j" "n_i ! j \<le> int (length (class_indices y ! j))"
    unfolding n_i_def counts_def rng0_def by blast+
  have cj: "length (class_indices y ! j) = count_list y c"
    using j by (simp add: class_indices_nth class_count)
  have cnth: "counts ! j = int (count_list y c)"
    using j cj by (simp add: counts_def unique_classes_facts(3))
  have sc: "sum_list counts = int n" by (simp add: counts_def class_counts_sum ly)
  from stratified_shuffle_split_Inr[OF res] obtain a b where
    v: "validate_shuffle_split n (SizeInt (int n_test)) (SizeInt (int n_train)) (1 / 10) = Inr (a, b)"
    and kb: "length (unique_classes y) \<le> b"
    by blast
  from validate_shuffle_split_ints[OF v] have pos: "0 < n_train" "b = n_test" by auto
  have tepos: "0 < n_test" using kb j(1) pos(2) by simp
  have npos: "0 < sum_list counts" using sc pos(1) tot by simp
  have jl: "j < length counts" using j(1) by (simp add: counts_def unique_classes_facts(3))
  let ?x = "of_int (counts ! j) / of_int (sum_list counts) * (of_int (int n_train) :: rat)"
  from approximate_mode_props[OF ok npos, of "int n_train" rng0] jl
  have fb: "\<lfloor>?x\<rfloor> \<le> n_i ! j" "n_i ! j \<le> \<lfloor>?x\<rfloor> + 1"
    unfolding n_i_def by blast+
  have "of_int \<lfloor>?x\<rfloor> \<le> ?x" "?x < of_int \<lfloor>?x\<rfloor> + 1" by linarith+
  moreover have "(of_int \<lfloor>?x\<rfloor> :: rat) \<le> of_int (n_i ! j)"
    using fb(1) by (simp only: of_int_le_iff)
  moreover have "(of_int (n_i ! j) :: rat) \<le> of_int (\<lfloor>?x\<rfloor> + 1)"
    using fb(2) by (simp only: of_int_le_iff)
  then have "(of_int (n_i ! j) :: rat) \<le> of_int \<lfloor>?x\<rfloor> + 1"
    by (simp only: of_int_add of_int_1)
  ultimately have ab: "\<bar>of_int (n_i ! j) - ?x\<bar> \<le> 1" by linarith
  have x: "?x = of_nat (count_list y c) / of_nat n * (of_nat n_train :: rat)"
    by (simp add: cnth sc)
  have t1: "count_list (map (\<lambda>i. y ! i) train) c = nat (n_i ! j)"
    using tr j(2) by (simp add: count_list_map_nth)
  have t2: "count_list (map (\<lambda>i. y ! i) test) c = nat (int (count_list y c) - n_i ! j)"
    using te j(2) cj by (simp add: count_list_map_nth)
  have s: "count_list (map (\<lambda>i. y ! i) train) c + count_list (map (\<lambda>i. y ! i) test) c
      = count_list y c"
    using b cj by (simp add: t1 t2)
  have "(of_nat (count_list (map (\<lambda>i. y ! i) train) c) :: rat) = of_int (n_i ! j)"
    using b(1) by (simp add: t1)
  then show ?thesis using ab x s pos(1) tepos by simp
qed

lemma ratio_bounds:
  fixes A B C N M n :: rat
  assumes "A + B = C" and "N + M = n" and "0 < N" and "0 < M" and "\<bar>A - C / n * N\<bar> \<le> 1"
  shows "\<bar>A / N - C / n\<bar> \<le> 1 / N" and "\<bar>B / M - C / n\<bar> \<le> 1 / M"
proof -
  have n: "n \<noteq> 0" using assms(2,3,4) by linarith
  have e1: "A / N - C / n = (A - C / n * N) / N"
    using assms(3) by (simp add: diff_divide_distrib)
  have "M = n - N" using assms(2) by linarith
  then have "C / n * M = C / n * n - C / n * N"
    by (simp only: right_diff_distrib)
  also have "C / n * n = C" using n by simp
  finally have f: "B - C / n * M = - (A - C / n * N)" using assms(1) by linarith
  have "B / M - C / n = (B - C / n * M) / M"
    using assms(4) by (simp add: diff_divide_distrib)
  then have e2: "B / M - C / n = - (A - C / n * N) / M"
    by (simp only: f)
  show "\<bar>A / N - C / n\<bar> \<le> 1 / N"
    unfolding e1 abs_divide using assms(3,5) by (simp add: divide_right_mono)
  show "\<bar>B / M - C / n\<bar> \<le> 1 / M"
    unfolding e2 abs_divide abs_minus_cancel using assms(4,5) by (simp add: divide_right_mono)
qed

lemma count_list_replicate: "count_list (replicate n x) c = (if x = c then n else 0)"
  by (induction n) auto

text \<open>
  Claim C4. Whenever the split inside \<open>generate_data\<close> is produced, every label \<open>c\<close> of
  the population is shared between the two subsets (the train and the test count add
  up to the count in the population), and the fraction of \<open>c\<close> in the train subset
  differs from its fraction in the population by at most one row of the train subset,
  \<open>1 / len(train)\<close>; likewise for the test subset. In the scenario of 100 patients with
  labels 0 and 1, 20 of them 1, the split (fraction \<open>0.2\<close>, seed 42) is produced, the
  train subset has exactly 80 rows of which 16 are positive, and the test subset has
  exactly 20 rows of which 4 are positive. The generator is any one that keeps the
  range contract of \<open>random_interval\<close>.
\<close>

theorem split_is_stratified:
  assumes ok: "interval_ok (rng w)"
    and p: "preprocesses_data w ''data/clinical_data/clinical_Data.csv'' = (X, y, ids)"
  shows "(\<forall>trd ted trl tel tri tei.
            split_population w = Inr (trd, ted, trl, tel, tri, tei) \<longrightarrow>
            (\<forall>c\<in>set y.
               count_list trl c + count_list tel c = count_list y c
             \<and> \<bar>of_nat (count_list trl c) / of_nat (length trl)
                  - of_nat (count_list y c) / of_nat (length y)\<bar> \<le> 1 / (of_nat (length trl) :: rat)
             \<and> \<bar>of_nat (count_list tel c) / of_nat (length tel)
                  - of_nat (count_list y c) / of_nat (length y)\<bar> \<le> 1 / (of_nat (length tel) :: rat)))
     \<and> (length X = 100 \<and> length ids = 100 \<and> length y = 100
          \<and> set y \<subseteq> {0, 1} \<and> count_list y 1 = 20 \<longrightarrow>
          (\<exists>trd ted trl tel tri tei.
             split_population w = Inr (trd, ted, trl, tel, tri, tei)
             \<and> length trl = 80 \<and> count_list trl 1 = 16
             \<and> length tel = 20 \<and> count_list tel 1 = 4))"
proof (intro conjI allI impI ballI)
  fix trd ted trl tel tri tei c
  assume sp: "split_population w = Inr (trd, ted, trl, tel, tri, tei)" and c: "c \<in> set y"
  from split_population_props[OF ok p sp] obtain train test n_train n_test where
    ly: "length y = length X"
    and tot: "n_train + n_test = length X"
    and s: "stratified_shuffle_split (rng w) (global_rand w) (Some 42)
           (SizeInt (int n_test)) (SizeInt (int n_train)) (length X) y = Inr (train, test)"
    and lt: "length train = n_train" "length test = n_test"
    and parts: "trl = map (\<lambda>i. y ! i) train" "tel = map (\<lambda>i. y ! i) test"
    by blast
  from stratified_class_counts[OF ok s tot c] have
    sum: "count_list trl c + count_list tel c = count_list y c"
    and b: "\<bar>of_nat (count_list trl c)
          - of_nat (count_list y c) / of_nat (length y) * (of_nat (length trl) :: rat)\<bar> \<le> 1"
    and pos: "0 < length trl" "0 < length tel"
    by (simp_all add: parts lt ly)
  have a1: "(of_nat (count_list trl c) :: rat) + of_nat (count_list tel c) = of_nat (count_list y c)"
    using sum by (simp flip: of_nat_add)
  have a2: "(of_nat (length trl) :: rat) + of_nat (length tel) = of_nat (length y)"
    using tot lt ly by (simp add: parts flip: of_nat_add)
  have a3: "(0 :: rat) < of_nat (length trl)" "(0 :: rat) < of_nat (length tel)"
    using pos by simp_all
  show "count_list trl c + count_list tel c = count_list y c" by (rule sum)
  show "\<bar>of_nat (count_list trl c) / of_nat (length trl)
          - of_nat (count_list y c) / of_nat (length y)\<bar> \<le> 1 / (of_nat (length trl) :: rat)"
    by (rule ratio_bounds(1)[OF a1 a2 a3 b])
  show "\<bar>of_nat (count_list tel c) / of_nat (length tel)
          - of_nat (count_list y c) / of_nat (length y)\<bar> \<le> 1 / (of_nat (length tel) :: rat)"
    by (rule ratio_bounds(2)[OF a1 a2 a3 b])
next
  assume h: "length X = 100 \<and> length ids = 100 \<and> length y = 100
          \<and> set y \<subseteq> {0, 1} \<and> count_list y 1 = 20"
  then have lX: "length X = 100" and lids: "length ids = 100" and ly: "length y = 100"
    and bin: "set y \<subseteq> {0, 1}" and c1: "count_list y 1 = 20" by simp_all
  have c0: "count_list y 0 = 80" using binary_counts[OF bin] ly c1 by simp
  have "0 \<in> set y" "1 \<in> set y"
    using c0 c1 by (metis count_list_0_iff zero_neq_numeral)+
  then have sy: "set y = {0, 1}" using bin by auto
  have uc: "unique_classes y = [0, 1]" by (rule unique_classes_binary[OF sy])
  have ci: "map (\<lambda>ix. int (length ix)) (class_indices y) = [80, 20]"
    by (simp add: class_indices_def uc class_count c0 c1)
  have two: "\<forall>c\<in>set y. 2 \<le> count_list y c" using sy c0 c1 by simp
  have v: "validate_shuffle_split (length X) (SizeFloat (1 / 5)) SizeNone (1 / 4) = Inr (80, 20)"
    by (simp add: lX validate_shuffle_split_def size_out_of_range_def)
  obtain train test where s: "stratified_shuffle_split (rng w) (global_rand w) (Some 42)
      (SizeInt (int 20)) (SizeInt (int 80)) (length X) y = Inr (train, test)"
    using stratified_shuffle_split_succeeds[of y "length X" 80 20 "rng w" "global_rand w" "Some 42"]
      two by (auto simp: lX ly uc)
  have tot: "(80::nat) + 20 = length X" by (simp add: lX)
  note P = stratified_split_props[OF ok s tot]
  have ms: "mset train + mset test = mset [0..<length X]" using P by blast
  have "set train \<union> set test = set [0..<length X]"
    using mset_eq_setD[of "train @ test" "[0..<length X]"] ms by simp
  then have rng: "\<forall>i\<in>set train. i < length X" "\<forall>i\<in>set test. i < length X" by auto
  have sp: "split_population w =
     Inr (map (\<lambda>i. X ! i) train, map (\<lambda>i. X ! i) test,
          map (\<lambda>i. y ! i) train, map (\<lambda>i. y ! i) test,
          map (\<lambda>i. ids ! i) train, map (\<lambda>i. ids ! i) test)"
    unfolding split_population_def p prod.case
    by (rule train_test_split_from_indices[OF _ _ v s rng]) (simp_all add: lX lids ly)
  have l: "length train = 80" "length test = 20" using P by blast+
  have j: "1 < length (unique_classes y)" "unique_classes y ! 1 = 1" by (simp_all add: uc)
  have n1: "fst (approximate_mode (rng w) (map (\<lambda>ix. int (length ix)) (class_indices y))
                     (int 80) (check_random_state (rng w) (global_rand w) (Some 42))) ! 1 = 16"
    by (simp add: ci approximate_mode_scenario(1))
  have l1: "int (length (class_indices y ! 1)) = 20"
    using arg_cong[OF ci, of "\<lambda>xs. xs ! 1"] j(1) by (simp add: unique_classes_facts(3))
  from P j(1) have
    "length (filter (\<lambda>i. y ! i = unique_classes y ! 1) train)
            = nat (fst (approximate_mode (rng w) (map (\<lambda>ix. int (length ix)) (class_indices y))
                     (int 80) (check_random_state (rng w) (global_rand w) (Some 42))) ! 1)"
    "length (filter (\<lambda>i. y ! i = unique_classes y ! 1) test)
            = nat (int (length (class_indices y ! 1))
                - fst (approximate_mode (rng w) (map (\<lambda>ix. int (length ix)) (class_indices y))
                     (int 80) (check_random_state (rng w) (global_rand w) (Some 42))) ! 1)"
    by blast+
  then have cnt: "count_list (map (\<lambda>i. y ! i) train) 1 = 16"
    "count_list (map (\<lambda>i. y ! i) test) 1 = 4"
    unfolding n1 l1 j(2) by (simp_all add: count_list_map_nth)
  show "\<exists>trd ted trl tel tri tei.
             split_population w = Inr (trd, ted, trl, tel, tri, tei)
             \<and> length trl = 80 \<and> count_list trl 1 = 16
             \<and> length tel = 20 \<and> count_list tel 1 = 4"
    using sp l cnt by simp
qed

theorem split_is_stratified_witness:
  "(\<exists>trd ted trl tel tri tei.
      split_population
        (demo_world []
           \<lparr>preprocesses_data :=
              (\<lambda>p. ([0..<100], replicate 80 0 @ replicate 20 1, map show_nat [0..<100]))\<rparr>)
        = Inr (trd, ted, trl, tel, tri, tei)
      \<and> length trl = 80 \<and> count_list trl 1 = 16 \<and> length tel = 20 \<and> count_list tel 1 = 4)
   \<and> split_population (demo_world [0,0,0,1,0,0,0,0,1,0]) =
       Inr ([17, 19, 11, 18, 10, 15, 13, 16], [14, 12], [0, 0, 0, 1, 0, 0, 1, 0], [0, 0],
            [''h'', ''j'', ''b'', ''i'', ''a'', ''f'', ''d'', ''g''], [''e'', ''c''])
   \<and> count_list [0, 0, 0, 1, 0, 0, 1, 0 :: int] 1 + count_list [0, 0 :: int] 1
       = count_list [0,0,0,1,0,0,0,0,1,0 :: int] 1
   \<and> \<bar>of_nat (count_list [0, 0, 0, 1, 0, 0, 1, 0 :: int] 1)
          / of_nat (length [0, 0, 0, 1, 0, 0, 1, 0 :: int])
        - of_nat (count_list [0,0,0,1,0,0,0,0,1,0 :: int] 1)
          / of_nat (length [0,0,0,1,0,0,0,0,1,0 :: int])\<bar>
       \<le> 1 / (of_nat (length [0, 0, 0, 1, 0, 0, 1, 0 :: int]) :: rat)"
proof -
  let ?W = "demo_world []
           \<lparr>preprocesses_data :=
              (\<lambda>p. ([0..<100], replicate 80 0 @ replicate 20 1, map show_nat [0..<100]))\<rparr>"
  have ok: "interval_ok (rng ?W)" by (simp add: demo_world_def demo_interval_ok)
  have p: "preprocesses_data ?W ''data/clinical_data/clinical_Data.csv''
      = ([0..<100], replicate 80 0 @ replicate 20 1, map show_nat [0..<100])"
    by simp
  have h: "length [0..<100] = 100 \<and> length (map show_nat [0..<100]) = 100
      \<and> length (replicate 80 (0::int) @ replicate 20 1) = 100
      \<and> set (replicate 80 (0::int) @ replicate 20 1) \<subseteq> {0, 1}
      \<and> count_list (replicate 80 (0::int) @ replicate 20 1) 1 = 20"
    by (simp add: count_list_replicate)
  have p10: "preprocesses_data (demo_world [0,0,0,1,0,0,0,0,1,0])
      ''data/clinical_data/clinical_Data.csv''
    = ([10, 11, 12, 13, 14, 15, 16, 17, 18, 19], [0,0,0,1,0,0,0,0,1,0],
       [''a'', ''b'', ''c'', ''d'', ''e'', ''f'', ''g'', ''h'', ''i'', ''j''])"
    by (simp add: demo_world_def)
  have m: "(1::int) \<in> set [0,0,0,1,0,0,0,0,1,0]" by simp
  note A = split_is_stratified[OF ok p, THEN conjunct2, THEN mp, OF h]
  note B = split_is_stratified[OF demo_world_rng_ok p10, THEN conjunct1, rule_format,
      OF demo_split_eval m]
  show ?thesis using A B demo_split_eval by blast
qed

end
